theory Spec2Isabelle
  imports Main "HOL-Library.Word"
begin

unbundle bit_operations_syntax

section \<open>Python values used by the secure transport\<close>

text \<open>
  Python integers are unbounded and are modelled as \<open>int\<close>; the result of \<open>len\<close> and
  the loop positions, which never go negative, are \<open>nat\<close>. A \<open>bytes\<close> object is a list
  of 8-bit words. Every exception the code can raise is a value of \<open>error\<close>, returned as
  \<open>Inl\<close>; a normal return is \<open>Inr\<close>.
\<close>

type_synonym byte = "8 word"
type_synonym bytes = "byte list"

datatype error =
    ValueError string
  | OverflowError
  | ZeroDivisionError
  | StructError
  | AttributeError
  | KeyError string
  | TypeError
  | ConnectionError
  | OtherError string

text \<open>Python's slice \<open>xs[a:b]\<close>: negative positions count from the end, and both ends
  are clamped to the sequence, so a slice never raises.\<close>

definition py_slice :: "'a list \<Rightarrow> int \<Rightarrow> int \<Rightarrow> 'a list" where
  "py_slice xs a b =
     (let len = int (length xs);
          lo = (if a < 0 then max 0 (a + len) else min a len);
          hi = (if b < 0 then max 0 (b + len) else min b len)
      in take (nat (hi - lo)) (drop (nat lo) xs))"

text \<open>\<open>int.from_bytes(b, "big")\<close>.\<close>

definition from_bytes :: "bytes \<Rightarrow> int" where
  "from_bytes bs = foldl (\<lambda>acc b. acc * 256 + uint b) 0 bs"

text \<open>\<open>x.to_bytes(length, "big")\<close>: the \<open>length\<close> low-order base-256 digits, most
  significant first. It raises ValueError on a negative length and OverflowError when
  \<open>x\<close> is negative or does not fit.\<close>

fun be_digits :: "nat \<Rightarrow> int \<Rightarrow> bytes" where
  "be_digits 0 x = []"
| "be_digits (Suc l) x = be_digits l (x div 256) @ [word_of_int (x mod 256)]"

definition to_bytes :: "int \<Rightarrow> int \<Rightarrow> error + bytes" where
  "to_bytes x len =
     (if len < 0 then Inl (ValueError ''length argument must be non-negative'')
      else if x < 0 then Inl OverflowError
      else if 256 ^ nat len \<le> x then Inl OverflowError
      else Inr (be_digits (nat len) x))"

text \<open>\<open>n.bit_length()\<close>: the number of binary digits of \<open>|n|\<close>.\<close>

function bit_length_nat :: "nat \<Rightarrow> nat" where
  "bit_length_nat m = (if m = 0 then 0 else Suc (bit_length_nat (m div 2)))"
  by pat_completeness auto
termination
  by (relation "measure (\<lambda>m. m)") auto

declare bit_length_nat.simps [simp del]

definition bit_length :: "int \<Rightarrow> nat" where
  "bit_length x = bit_length_nat (nat \<bar>x\<bar>)"

text \<open>The built-in \<open>pow(b, ex, m)\<close>. For \<open>ex \<ge> 0\<close> it is \<open>b ^ ex mod m\<close>, computed by
  repeated squaring; a zero modulus raises ValueError; for a negative exponent the base must be
  invertible modulo \<open>m\<close> and the inverse is raised to \<open>-ex\<close>.\<close>

function pow_mod :: "int \<Rightarrow> nat \<Rightarrow> int \<Rightarrow> int" where
  "pow_mod b ex m =
     (if ex = 0 then 1 mod m
      else if even ex then pow_mod (b * b mod m) (ex div 2) m
      else b * pow_mod (b * b mod m) (ex div 2) m mod m)"
  by pat_completeness auto
termination
  by (relation "measure (\<lambda>(b, ex, m). ex)") auto

declare pow_mod.simps [simp del]

definition py_inverse :: "int \<Rightarrow> int \<Rightarrow> int option" where
  "py_inverse b m = find (\<lambda>i. b * i mod m = 1 mod m) (map int [0..<nat \<bar>m\<bar>])"

definition py_pow :: "int \<Rightarrow> int \<Rightarrow> int \<Rightarrow> error + int" where
  "py_pow b ex m =
     (if m = 0 then Inl (ValueError ''pow() 3rd argument cannot be 0'')
      else if 0 \<le> ex then Inr (pow_mod b (nat ex) m)
      else (case py_inverse b m of
              None \<Rightarrow> Inl (ValueError ''base is not invertible for the given modulus'')
            | Some i \<Rightarrow> Inr (pow_mod i (nat (- ex)) m)))"

text \<open>The random source (\<open>secrets\<close>) is a sequence \<open>rnd\<close> of raw draws and a counter
  of the draws made so far; \<open>randbelow n\<close> reduces the next draw into \<open>[0, n)\<close> and
  \<open>randbits k\<close> into \<open>[0, 2^k)\<close>, so every value the real source can return is the
  value of some sequence.\<close>

type_synonym rand_source = "nat \<Rightarrow> nat"

definition randbelow :: "rand_source \<Rightarrow> nat \<Rightarrow> nat \<Rightarrow> nat" where
  "randbelow rnd j bound = rnd j mod bound"

definition randbits :: "rand_source \<Rightarrow> nat \<Rightarrow> nat \<Rightarrow> nat" where
  "randbits rnd j k = rnd j mod 2 ^ k"

text \<open>Both are called with a positive bound only (255, and \<open>n - 3\<close> for \<open>n \<ge> 41\<close>),
  so the ValueError of the library on a non-positive bound never arises.\<close>

section \<open>rsa\_block.py: math utils\<close>

function egcd :: "int \<Rightarrow> int \<Rightarrow> int \<times> int \<times> int" where
  "egcd a b =
     (if b = 0 then (a, 1, 0)
      else (case egcd b (a mod b) of (g, x, y) \<Rightarrow> (g, y, x - (a div b) * y)))"
  by pat_completeness auto
termination
  by (relation "measure (\<lambda>(a, b). nat \<bar>b\<bar>)") (auto simp: abs_mod_less)

declare egcd.simps [simp del]

definition modinv :: "int \<Rightarrow> int \<Rightarrow> error + int" where
  "modinv a m =
     (case egcd a m of (g, x, y) \<Rightarrow>
        if g \<noteq> 1 then Inl (ValueError ''No modular inverse'')
        else if m = 0 then Inl ZeroDivisionError
        else Inr (x mod m))"


text \<open>\<open>is_probable_prime\<close>. The loop over \<open>small_primes\<close> returns early
  (\<open>Some\<close> of the answer) or falls through (\<open>None\<close>).\<close>

definition small_primes :: "int list" where
  "small_primes = [2, 3, 5, 7, 11, 13, 17, 19, 23, 29, 31, 37]"

fun small_prime_test :: "int list \<Rightarrow> int \<Rightarrow> bool option" where
  "small_prime_test [] n = None"
| "small_prime_test (p # ps) n =
     (if n = p then Some True
      else if n mod p = 0 then Some False
      else small_prime_test ps n)"

text \<open>\<open>while d % 2 == 0: d //= 2; s += 1\<close>. The loop does not end for \<open>d = 0\<close>, so
  not returning is the value \<open>None\<close>.\<close>

partial_function (option) split_twos :: "int \<Rightarrow> nat \<Rightarrow> (int \<times> nat) option" where
  "split_twos d s = (if d mod 2 = 0 then split_twos (d div 2) (s + 1) else Some (d, s))"

text \<open>The inner function \<open>check(a)\<close>, with the variables \<open>d\<close>, \<open>s\<close> and \<open>n\<close> it
  closes over; \<open>check_loop\<close> is its \<open>for _ in range(s - 1)\<close>.\<close>

fun check_loop :: "nat \<Rightarrow> int \<Rightarrow> int \<Rightarrow> bool" where
  "check_loop 0 x n = False"
| "check_loop (Suc t) x n =
     (let x' = (x * x) mod n in if x' = n - 1 then True else check_loop t x' n)"

definition check :: "int \<Rightarrow> int \<Rightarrow> nat \<Rightarrow> int \<Rightarrow> error + bool" where
  "check a d s n =
     (case py_pow a d n of
        Inl err \<Rightarrow> Inl err
      | Inr x \<Rightarrow> Inr (if x = 1 \<or> x = n - 1 then True else check_loop (s - 1) x n))"

text \<open>\<open>for _ in range(k)\<close>: one random base per round; the result carries the counter
  of the random source.\<close>

fun rounds :: "nat \<Rightarrow> int \<Rightarrow> int \<Rightarrow> nat \<Rightarrow> rand_source \<Rightarrow> nat \<Rightarrow> error + bool \<times> nat" where
  "rounds 0 n d s rnd j = Inr (True, j)"
| "rounds (Suc t) n d s rnd j =
     (let a = int (randbelow rnd j (nat (n - 3))) + 2 in
      case check a d s n of
        Inl err \<Rightarrow> Inl err
      | Inr ok \<Rightarrow> if \<not> ok then Inr (False, Suc j) else rounds t n d s rnd (Suc j))"

definition is_probable_prime ::
  "int \<Rightarrow> int \<Rightarrow> rand_source \<Rightarrow> nat \<Rightarrow> (error + bool \<times> nat) option" where
  "is_probable_prime n k rnd j =
     (if n < 2 then Some (Inr (False, j))
      else (case small_prime_test small_primes n of
              Some r \<Rightarrow> Some (Inr (r, j))
            | None \<Rightarrow>
                (case split_twos (n - 1) 0 of
                   None \<Rightarrow> None
                 | Some (d, s) \<Rightarrow> Some (rounds (nat k) n d s rnd j))))"

text \<open>\<open>gen_prime\<close>: \<open>while True\<close> over fresh candidates, so not returning is \<open>None\<close>.\<close>

partial_function (option) gen_prime_loop ::
  "int \<Rightarrow> rand_source \<Rightarrow> nat \<Rightarrow> (error + int \<times> nat) option" where
  "gen_prime_loop bits rnd j =
     (let x = int (randbits rnd j (nat bits)) OR push_bit (nat (bits - 1)) 1 OR 1 in
      case is_probable_prime x 20 rnd (Suc j) of
        None \<Rightarrow> None
      | Some (Inl err) \<Rightarrow> Some (Inl err)
      | Some (Inr (ok, j')) \<Rightarrow>
          if ok then Some (Inr (x, j')) else gen_prime_loop bits rnd j')"

definition gen_prime :: "int \<Rightarrow> rand_source \<Rightarrow> nat \<Rightarrow> (error + int \<times> nat) option" where
  "gen_prime bits rnd j =
     (if bits < 16 then Some (Inl (ValueError ''bits too small''))
      else gen_prime_loop bits rnd j)"

section \<open>rsa\_block.py: RSA keys\<close>

text \<open>The frozen dataclasses \<open>PublicKey(n, e)\<close> and \<open>PrivateKey(n, d)\<close>. The fields
  carry the class as a prefix, since a record field is a constant of the whole theory.\<close>

record PublicKey =
  pub_n :: int
  pub_e :: int

record PrivateKey =
  priv_n :: int
  priv_d :: int

partial_function (option) generate_keypair_loop ::
  "int \<Rightarrow> int \<Rightarrow> int \<Rightarrow> rand_source \<Rightarrow> nat \<Rightarrow> (error + (PublicKey \<times> PrivateKey) \<times> nat) option" where
  "generate_keypair_loop bits half e rnd j =
     (case gen_prime half rnd j of
        None \<Rightarrow> None
      | Some (Inl err) \<Rightarrow> Some (Inl err)
      | Some (Inr (p, j1)) \<Rightarrow>
          (case gen_prime (bits - half) rnd j1 of
             None \<Rightarrow> None
           | Some (Inl err) \<Rightarrow> Some (Inl err)
           | Some (Inr (q, j2)) \<Rightarrow>
               if p = q then generate_keypair_loop bits half e rnd j2
               else
                 (let n = p * q; phi = (p - 1) * (q - 1) in
                  if e = 0 then Some (Inl ZeroDivisionError)
                  else if phi mod e = 0 then generate_keypair_loop bits half e rnd j2
                  else (case modinv e phi of
                          Inl err \<Rightarrow> Some (Inl err)
                        | Inr d \<Rightarrow>
                            Some (Inr ((\<lparr>pub_n = n, pub_e = e\<rparr>, \<lparr>priv_n = n, priv_d = d\<rparr>), j2))))))"

definition generate_keypair ::
  "int \<Rightarrow> int \<Rightarrow> rand_source \<Rightarrow> nat \<Rightarrow> (error + (PublicKey \<times> PrivateKey) \<times> nat) option" where
  "generate_keypair bits e rnd j = generate_keypair_loop bits (bits div 2) e rnd j"

definition rsa_encrypt_int :: "int \<Rightarrow> PublicKey \<Rightarrow> error + int" where
  "rsa_encrypt_int m pub =
     (if m < 0 \<or> m \<ge> pub_n pub then Inl (ValueError ''m out of range'')
      else py_pow m (pub_e pub) (pub_n pub))"

definition rsa_decrypt_int :: "int \<Rightarrow> PrivateKey \<Rightarrow> error + int" where
  "rsa_decrypt_int c priv =
     (if c < 0 \<or> c \<ge> priv_n priv then Inl (ValueError ''c out of range'')
      else py_pow c (priv_d priv) (priv_n priv))"

section \<open>rsa\_block.py: block modes\<close>

definition mod_bytes :: "int \<Rightarrow> nat" where
  "mod_bytes n = (bit_length n + 7) div 8"

text \<open>The body of the \<open>while\<close> loop of \<open>encrypt_bytes\<close> for one chunk: the plaintext
  block \<open>[len:2][rand:1]?[payload][pad]\<close>, its RSA image and the framing of the mode.
  \<open>r\<close> is the value of \<open>secrets.randbelow(255) + 1\<close>, read in the rand modes only.\<close>

definition plain_block_of :: "bytes \<Rightarrow> int \<Rightarrow> bool \<Rightarrow> nat \<Rightarrow> error + bytes" where
  "plain_block_of chunk plain_block rand r =
     (case to_bytes (int (length chunk)) 2 of
        Inl err \<Rightarrow> Inl err
      | Inr lb \<Rightarrow>
          (let block = (if rand then lb @ [of_nat r] @ chunk else lb @ chunk)
           in Inr (if int (length block) < plain_block
                   then block @ replicate (nat (plain_block - int (length block))) 0
                   else block)))"

definition encrypt_block ::
  "bytes \<Rightarrow> PublicKey \<Rightarrow> string \<Rightarrow> nat \<Rightarrow> int \<Rightarrow> int \<Rightarrow> bool \<Rightarrow> nat \<Rightarrow> error + bytes" where
  "encrypt_block chunk pub mode k plain_block payload_cap rand r =
     (if int (length chunk) > payload_cap then Inl (ValueError ''internal chunk overflow'')
      else (case plain_block_of chunk plain_block rand r of
              Inl err \<Rightarrow> Inl err
            | Inr block \<Rightarrow>
                (case rsa_encrypt_int (from_bytes block) pub of
                   Inl err \<Rightarrow> Inl err
                 | Inr c \<Rightarrow>
                     (case to_bytes c (int k) of
                        Inl err \<Rightarrow> Inl err
                      | Inr cbytes \<Rightarrow>
                          if mode \<in> {''raw_fixed'', ''rand_fixed''} then Inr cbytes
                          else (case to_bytes (int (length cbytes)) 2 of
                                  Inl err \<Rightarrow> Inl err
                                | Inr lp \<Rightarrow> Inr (lp @ cbytes))))))"

text \<open>The \<open>while i < len(data)\<close> loop. \<open>i\<close> advances by the length of the chunk, which
  is empty when \<open>payload_cap \<le> 0\<close>: the loop as written need not end, so not returning
  is the value \<open>None\<close>. \<open>j\<close> counts the draws from the random source.\<close>

partial_function (option) encrypt_loop ::
  "bytes \<Rightarrow> PublicKey \<Rightarrow> string \<Rightarrow> nat \<Rightarrow> int \<Rightarrow> int \<Rightarrow> bool \<Rightarrow> rand_source \<Rightarrow> nat \<Rightarrow> nat \<Rightarrow> bytes
     \<Rightarrow> (error + bytes) option" where
  "encrypt_loop data pub mode k plain_block payload_cap rand rnd j i out =
     (if i < length data then
        (let chunk = py_slice data (int i) (int i + payload_cap);
             i' = i + length chunk;
             r = randbelow rnd j 255 + 1;
             j' = (if rand then Suc j else j)
         in case encrypt_block chunk pub mode k plain_block payload_cap rand r of
              Inl err \<Rightarrow> Some (Inl err)
            | Inr cb \<Rightarrow> encrypt_loop data pub mode k plain_block payload_cap rand rnd j' i' (out @ cb))
      else Some (Inr out))"

definition encrypt_bytes ::
  "bytes \<Rightarrow> PublicKey \<Rightarrow> string \<Rightarrow> rand_source \<Rightarrow> (error + bytes) option" where
  "encrypt_bytes data pub mode rnd =
     (let k = mod_bytes (pub_n pub);
          plain_block = int k - 1
      in if plain_block < 8 then Some (Inl (ValueError ''RSA modulus too small''))
         else if mode \<in> {''raw_fixed'', ''raw_len''} then
           encrypt_loop data pub mode k plain_block (plain_block - 2) False rnd 0 0 []
         else if mode \<in> {''rand_fixed'', ''rand_len''} then
           encrypt_loop data pub mode k plain_block (plain_block - 3) True rnd 0 0 []
         else Some (Inl (ValueError ''bad mode'')))"

text \<open>\<open>decrypt_bytes\<close>, first half: the list \<open>blocks\<close>. In the fixed modes
  \<open>len(data) % k\<close> raises ZeroDivisionError for \<open>k = 0\<close>, and the comprehension over
  \<open>range(0, len(data), k)\<close> cuts \<open>data\<close> at the multiples of \<open>k\<close>; in the length-prefixed
  modes \<open>split_len_blocks\<close> is the \<open>while pos < len(data)\<close> loop.\<close>

function split_len_blocks :: "bytes \<Rightarrow> nat \<Rightarrow> error + bytes list" where
  "split_len_blocks data pos =
     (if pos < length data then
        (if pos + 2 > length data then Inl (ValueError ''bad cipher format'')
         else
           (let blen = nat (from_bytes (py_slice data (int pos) (int pos + 2)));
                pos2 = pos + 2
            in if pos2 + blen > length data then Inl (ValueError ''bad cipher format'')
               else (case split_len_blocks data (pos2 + blen) of
                       Inl err \<Rightarrow> Inl err
                     | Inr bs \<Rightarrow> Inr (py_slice data (int pos2) (int pos2 + int blen) # bs))))
      else Inr [])"
  by pat_completeness auto
termination
  by (relation "measure (\<lambda>(data, pos). length data - pos)") auto

declare split_len_blocks.simps [simp del]

definition cipher_blocks :: "bytes \<Rightarrow> nat \<Rightarrow> string \<Rightarrow> error + bytes list" where
  "cipher_blocks data k mode =
     (if mode \<in> {''raw_fixed'', ''rand_fixed''} then
        (if k = 0 then Inl ZeroDivisionError
         else if length data mod k \<noteq> 0 then Inl (ValueError ''cipher length not aligned'')
         else Inr (map (\<lambda>t. py_slice data (int (t * k)) (int (t * k) + int k))
                       [0..<(length data + k - 1) div k]))
      else if mode \<in> {''raw_len'', ''rand_len''} then split_len_blocks data 0
      else Inl (ValueError ''bad mode''))"

text \<open>Second half: the body of \<open>for b in blocks\<close>. \<open>block_plain\<close> is the decrypted
  plaintext block \<open>p\<close>, \<open>declared_len\<close> its length field \<open>L\<close>, \<open>payload_cap\<close> the
  \<open>cap\<close> of the mode.\<close>

definition block_plain :: "bytes \<Rightarrow> PrivateKey \<Rightarrow> int \<Rightarrow> error + bytes" where
  "block_plain b priv plain_block =
     (case rsa_decrypt_int (from_bytes b) priv of
        Inl err \<Rightarrow> Inl err
      | Inr m \<Rightarrow> to_bytes m plain_block)"

definition declared_len :: "bytes \<Rightarrow> int" where
  "declared_len p = from_bytes (py_slice p 0 2)"

definition is_rand_mode :: "string \<Rightarrow> bool" where
  "is_rand_mode mode = (mode \<in> {''rand_fixed'', ''rand_len''})"

definition payload_cap :: "string \<Rightarrow> int \<Rightarrow> int" where
  "payload_cap mode plain_block = (if is_rand_mode mode then plain_block - 3 else plain_block - 2)"

definition payload_start :: "string \<Rightarrow> int" where
  "payload_start mode = (if is_rand_mode mode then 3 else 2)"

definition decrypt_block :: "bytes \<Rightarrow> PrivateKey \<Rightarrow> string \<Rightarrow> int \<Rightarrow> error + bytes" where
  "decrypt_block b priv mode plain_block =
     (case block_plain b priv plain_block of
        Inl err \<Rightarrow> Inl err
      | Inr p \<Rightarrow>
          (let L = declared_len p;
               start = payload_start mode;
               cap = payload_cap mode plain_block
           in if L < 0 \<or> L > cap then Inl (ValueError ''bad plaintext length'')
              else Inr (py_slice p start (start + L))))"

fun decrypt_blocks :: "bytes list \<Rightarrow> PrivateKey \<Rightarrow> string \<Rightarrow> int \<Rightarrow> bytes \<Rightarrow> error + bytes" where
  "decrypt_blocks [] priv mode plain_block out = Inr out"
| "decrypt_blocks (b # bs) priv mode plain_block out =
     (case decrypt_block b priv mode plain_block of
        Inl err \<Rightarrow> Inl err
      | Inr x \<Rightarrow> decrypt_blocks bs priv mode plain_block (out @ x))"

definition decrypt_bytes :: "bytes \<Rightarrow> PrivateKey \<Rightarrow> string \<Rightarrow> error + bytes" where
  "decrypt_bytes data priv mode =
     (let k = mod_bytes (priv_n priv);
          plain_block = int k - 1
      in case cipher_blocks data k mode of
           Inl err \<Rightarrow> Inl err
         | Inr blocks \<Rightarrow> decrypt_blocks blocks priv mode plain_block [])"

section \<open>secure\_protocol.py and the multi-file framing\<close>

text \<open>\<open>struct.pack(">I", x)\<close> raises \<open>struct.error\<close> unless \<open>0 \<le> x < 2^32\<close>;
  \<open>struct.unpack(">I", b)\<close> raises it unless \<open>b\<close> has exactly 4 bytes.\<close>

definition struct_pack_I :: "nat \<Rightarrow> error + bytes" where
  "struct_pack_I x = (if x < 2 ^ 32 then Inr (be_digits 4 (int x)) else Inl StructError)"

definition struct_unpack_I :: "bytes \<Rightarrow> error + nat" where
  "struct_unpack_I b = (if length b = 4 then Inr (nat (from_bytes b)) else Inl StructError)"

text \<open>\<open>pickle.dumps\<close> and \<open>pickle.loads\<close> belong to the standard library: they are the
  parameters \<open>dumps\<close> and \<open>loads\<close>, over any type \<open>'h\<close> of header objects.\<close>

definition pack_pickle_bin :: "('h \<Rightarrow> error + bytes) \<Rightarrow> 'h \<Rightarrow> bytes \<Rightarrow> error + bytes" where
  "pack_pickle_bin dumps header_obj bin_data =
     (case dumps header_obj of
        Inl err \<Rightarrow> Inl err
      | Inr h \<Rightarrow>
          (case struct_pack_I (length h) of
             Inl err \<Rightarrow> Inl err
           | Inr hl \<Rightarrow>
               (case struct_pack_I (length bin_data) of
                  Inl err \<Rightarrow> Inl err
                | Inr bl \<Rightarrow> Inr (hl @ h @ bl @ bin_data))))"

definition unpack_pickle_bin :: "(bytes \<Rightarrow> error + 'h) \<Rightarrow> bytes \<Rightarrow> error + 'h \<times> bytes" where
  "unpack_pickle_bin loads packet =
     (case struct_unpack_I (py_slice packet 0 4) of
        Inl err \<Rightarrow> Inl err
      | Inr hlen \<Rightarrow>
          (case loads (py_slice packet 4 (4 + int hlen)) of
             Inl err \<Rightarrow> Inl err
           | Inr header \<Rightarrow>
               (let off = 4 + int hlen in
                case struct_unpack_I (py_slice packet off (off + 4)) of
                  Inl err \<Rightarrow> Inl err
                | Inr blen \<Rightarrow> Inr (header, py_slice packet (off + 4) (off + 4 + int blen)))))"

text \<open>\<open>_pack_multi_files\<close> (client) and \<open>_unpack_multi_files\<close> (server); an Isabelle
  name cannot start with an underscore. \<open>pack_entries\<close> is the \<open>for b in blobs\<close> loop and
  \<open>unpack_entries\<close> the \<open>for _ in range(count)\<close> loop, each with its accumulator.\<close>

fun pack_entries :: "bytes list \<Rightarrow> bytes \<Rightarrow> error + bytes" where
  "pack_entries [] out = Inr out"
| "pack_entries (b # bs) out =
     (case struct_pack_I (length b) of
        Inl err \<Rightarrow> Inl err
      | Inr lb \<Rightarrow> pack_entries bs (out @ lb @ b))"

definition pack_multi_files :: "bytes list \<Rightarrow> error + bytes" where
  "pack_multi_files blobs =
     (case struct_pack_I (length blobs) of
        Inl err \<Rightarrow> Inl err
      | Inr c \<Rightarrow> pack_entries blobs c)"

fun unpack_entries :: "nat \<Rightarrow> bytes \<Rightarrow> nat \<Rightarrow> bytes list \<Rightarrow> error + bytes list" where
  "unpack_entries 0 blob off out = Inr out"
| "unpack_entries (Suc c) blob off out =
     (if off + 4 > length blob then Inl (ValueError ''bad files blob'')
      else (case struct_unpack_I (py_slice blob (int off) (int off + 4)) of
              Inl err \<Rightarrow> Inl err
            | Inr n \<Rightarrow>
                (let off2 = off + 4 in
                 if off2 + n > length blob then Inl (ValueError ''bad files blob'')
                 else unpack_entries c blob (off2 + n)
                        (out @ [py_slice blob (int off2) (int off2 + int n)]))))"

definition unpack_multi_files :: "bytes \<Rightarrow> error + bytes list" where
  "unpack_multi_files blob =
     (if length blob < 4 then Inl (ValueError ''bad files blob'')
      else (case struct_unpack_I (py_slice blob 0 4) of
              Inl err \<Rightarrow> Inl err
            | Inr count \<Rightarrow> unpack_entries count blob 4 []))"

section \<open>crypto\_ctx.py and the connection handlers of main.py\<close>

text \<open>A frame of the plaintext handshake is a JSON value (\<open>orjson.loads\<close>); the pickled
  requests and responses are dictionaries of the same shape. \<open>JDict\<close> lists the items of
  a dictionary, first occurrence of a key first.\<close>

datatype json =
    JNull
  | JBool bool
  | JInt int
  | JStr string
  | JList "json list"
  | JDict "(string \<times> json) list"

text \<open>\<open>obj.get(key)\<close>: \<open>None\<close> for a missing key, AttributeError when \<open>obj\<close> is not
  a dictionary. \<open>obj[key]\<close> with a string key: KeyError for a missing key, TypeError when
  \<open>obj\<close> is not a dictionary.\<close>

fun py_get :: "json \<Rightarrow> string \<Rightarrow> error + json" where
  "py_get (JDict kvs) key = Inr (case map_of kvs key of None \<Rightarrow> JNull | Some v \<Rightarrow> v)"
| "py_get obj key = Inl AttributeError"

fun py_item :: "json \<Rightarrow> string \<Rightarrow> error + json" where
  "py_item (JDict kvs) key = (case map_of kvs key of None \<Rightarrow> Inl (KeyError key) | Some v \<Rightarrow> Inr v)"
| "py_item obj key = Inl TypeError"

text \<open>The dataclass \<open>CryptoCtx(pub, priv, mode)\<close>, its fields prefixed.\<close>

record CryptoCtx =
  ctx_pub :: PublicKey
  ctx_priv :: PrivateKey
  ctx_mode :: string

text \<open>What the handlers take from outside the transport core: the built-ins \<open>int()\<close> and
  \<open>str()\<close>, \<open>pickle.loads\<close>, the request handler \<open>handle\<close>, and the processing of an
  upload after it is decrypted (token check, file storage, row insertion), which sends the
  encrypted replies it lists.\<close>

datatype response = Plain json | Bin json bytes

datatype action =
    SendMsg json
  | Decrypt bytes
  | SendEncrypted json PublicKey
  | SendEncryptedBin json bytes PublicKey

record collaborators =
  py_int :: "json \<Rightarrow> error + int"
  py_str :: "int \<Rightarrow> string"
  str_of_error :: "error \<Rightarrow> string"
  pickle_loads :: "bytes \<Rightarrow> error + json"
  handle :: "json \<Rightarrow> error + response"
  process_upload :: "json \<Rightarrow> bytes \<Rightarrow> PublicKey \<Rightarrow> action list"

text \<open>What the peer and the transport do on one connection: the first frame as
  \<open>recv_msg\<close> returns it (or the exception it raises), the ciphertext of the encrypted
  frame as the two \<open>recv_exact\<close> calls return it, and for the \<open>t\<close>-th send of the
  handler (\<open>send_msg\<close>, \<open>send_encrypted\<close>, \<open>send_encrypted_bin\<close>) whether it raises
  (serialisation, encryption or a closed socket). A property proved for every such
  environment holds for every run.\<close>

record conn_env =
  recv_first :: "error + json"
  recv_enc :: "error + bytes"
  send_raises :: "nat \<Rightarrow> error option"

definition pub_to_json :: "collaborators \<Rightarrow> PublicKey \<Rightarrow> json" where
  "pub_to_json lib pub = JDict [(''n'', JStr (py_str lib (pub_n pub))), (''e'', JInt (pub_e pub))]"

definition pub_from_json :: "collaborators \<Rightarrow> json \<Rightarrow> error + PublicKey" where
  "pub_from_json lib d =
     (case py_item d ''n'' of
        Inl err \<Rightarrow> Inl err
      | Inr jn \<Rightarrow>
          (case py_int lib jn of
             Inl err \<Rightarrow> Inl err
           | Inr n \<Rightarrow>
               (case py_item d ''e'' of
                  Inl err \<Rightarrow> Inl err
                | Inr je \<Rightarrow>
                    (case py_int lib je of
                       Inl err \<Rightarrow> Inl err
                     | Inr e \<Rightarrow> Inr \<lparr>pub_n = n, pub_e = e\<rparr>))))"

definition expected_hello :: json where
  "expected_hello = JDict [(''ok'', JBool False), (''error'', JStr ''expected hello'')]"

definition hello_ack :: "collaborators \<Rightarrow> CryptoCtx \<Rightarrow> json" where
  "hello_ack lib crypto =
     JDict [(''ok'', JBool True), (''type'', JStr ''hello_ack''),
            (''pub'', pub_to_json lib (ctx_pub crypto))]"

text \<open>The handler \<open>except Exception as e\<close> of both loops: the error reply goes out
  encrypted when \<open>client_pub\<close> is known and as a plaintext frame otherwise; a failure of
  this send is swallowed (\<open>except Exception: pass\<close>).\<close>

definition on_exception :: "collaborators \<Rightarrow> error \<Rightarrow> PublicKey option \<Rightarrow> action list" where
  "on_exception lib e client_pub =
     (let err = JDict [(''ok'', JBool False), (''error'', JStr (str_of_error lib e))]
      in case client_pub of
           Some cp \<Rightarrow> [SendEncrypted err cp]
         | None \<Rightarrow> [SendMsg err])"

text \<open>\<open>recv_encrypted\<close> and \<open>recv_encrypted_bin\<close> (secure\_protocol.py) on the
  ciphertext read from the socket: the actions performed and the value returned.\<close>

definition recv_encrypted ::
  "collaborators \<Rightarrow> conn_env \<Rightarrow> PrivateKey \<Rightarrow> string \<Rightarrow> action list \<times> (error + json)" where
  "recv_encrypted lib env my_priv mode =
     (case recv_enc env of
        Inl err \<Rightarrow> ([], Inl err)
      | Inr enc \<Rightarrow>
          ([Decrypt enc],
           (case decrypt_bytes enc my_priv mode of
              Inl err \<Rightarrow> Inl err
            | Inr plain \<Rightarrow> pickle_loads lib plain)))"

definition recv_encrypted_bin ::
  "collaborators \<Rightarrow> conn_env \<Rightarrow> PrivateKey \<Rightarrow> string \<Rightarrow> action list \<times> (error + json \<times> bytes)" where
  "recv_encrypted_bin lib env my_priv mode =
     (case recv_enc env of
        Inl err \<Rightarrow> ([], Inl err)
      | Inr enc \<Rightarrow>
          ([Decrypt enc],
           (case decrypt_bytes enc my_priv mode of
              Inl err \<Rightarrow> Inl err
            | Inr packet \<Rightarrow> unpack_pickle_bin (pickle_loads lib) packet)))"

text \<open>The body of \<open>with conn:\<close> in \<open>serve\<close> for one accepted connection, as the list
  of the actions it performs in order. \<open>continue\<close> and the end of the body both leave the
  \<open>with\<close> block, which closes the connection.\<close>

definition serve_conn :: "collaborators \<Rightarrow> CryptoCtx \<Rightarrow> conn_env \<Rightarrow> action list" where
  "serve_conn lib crypto env =
     (case recv_first env of
        Inl err \<Rightarrow> on_exception lib err None
      | Inr hello \<Rightarrow>
          (case py_get hello ''type'' of
             Inl err \<Rightarrow> on_exception lib err None
           | Inr t \<Rightarrow>
               if t \<noteq> JStr ''hello'' then
                 SendMsg expected_hello #
                   (case send_raises env 0 of
                      Some err \<Rightarrow> on_exception lib err None
                    | None \<Rightarrow> [])
               else
                 (case py_item hello ''pub'' of
                    Inl err \<Rightarrow> on_exception lib err None
                  | Inr jpub \<Rightarrow>
                      (case pub_from_json lib jpub of
                         Inl err \<Rightarrow> on_exception lib err None
                       | Inr client_pub \<Rightarrow>
                           SendMsg (hello_ack lib crypto) #
                             (case send_raises env 0 of
                                Some err \<Rightarrow> on_exception lib err (Some client_pub)
                              | None \<Rightarrow>
                                  (case recv_encrypted lib env (ctx_priv crypto) (ctx_mode crypto) of
                                     (acts, Inl err) \<Rightarrow> acts @ on_exception lib err (Some client_pub)
                                   | (acts, Inr req) \<Rightarrow>
                                       acts @
                                       (case handle lib req of
                                          Inl err \<Rightarrow> on_exception lib err (Some client_pub)
                                        | Inr (Bin header bin) \<Rightarrow>
                                            SendEncryptedBin header bin client_pub #
                                              (case send_raises env 1 of
                                                 Some err \<Rightarrow> on_exception lib err (Some client_pub)
                                               | None \<Rightarrow> [])
                                        | Inr (Plain resp) \<Rightarrow>
                                            SendEncrypted resp client_pub #
                                              (case send_raises env 1 of
                                                 Some err \<Rightarrow> on_exception lib err (Some client_pub)
                                               | None \<Rightarrow> []))))))))"

text \<open>The same for \<open>serve_upload\<close>: the handshake is the same code; the request is read
  with \<open>recv_encrypted_bin\<close> and handed to the upload processing.\<close>

definition serve_upload_conn :: "collaborators \<Rightarrow> CryptoCtx \<Rightarrow> conn_env \<Rightarrow> action list" where
  "serve_upload_conn lib crypto env =
     (case recv_first env of
        Inl err \<Rightarrow> on_exception lib err None
      | Inr hello \<Rightarrow>
          (case py_get hello ''type'' of
             Inl err \<Rightarrow> on_exception lib err None
           | Inr t \<Rightarrow>
               if t \<noteq> JStr ''hello'' then
                 SendMsg expected_hello #
                   (case send_raises env 0 of
                      Some err \<Rightarrow> on_exception lib err None
                    | None \<Rightarrow> [])
               else
                 (case py_item hello ''pub'' of
                    Inl err \<Rightarrow> on_exception lib err None
                  | Inr jpub \<Rightarrow>
                      (case pub_from_json lib jpub of
                         Inl err \<Rightarrow> on_exception lib err None
                       | Inr client_pub \<Rightarrow>
                           SendMsg (hello_ack lib crypto) #
                             (case send_raises env 0 of
                                Some err \<Rightarrow> on_exception lib err (Some client_pub)
                              | None \<Rightarrow>
                                  (case recv_encrypted_bin lib env (ctx_priv crypto) (ctx_mode crypto) of
                                     (acts, Inl err) \<Rightarrow> acts @ on_exception lib err (Some client_pub)
                                   | (acts, Inr (header, data)) \<Rightarrow>
                                       acts @ process_upload lib header data client_pub))))))"

text \<open>Whether an action is a decryption with the private key.\<close>

fun is_decrypt :: "action \<Rightarrow> bool" where
  "is_decrypt (Decrypt enc) = True"
| "is_decrypt a = False"

text \<open>The bytes \<open>[len:4][bytes]\<close> of a list of buffers, as the loop of
  \<open>_pack_multi_files\<close> appends them; used to state the lemmas about the framing.\<close>

definition entry_bytes :: "bytes list \<Rightarrow> bytes" where
  "entry_bytes bs = concat (map (\<lambda>b. be_digits 4 (int (length b)) @ b) bs)"

text \<open>A random source under which the key generator returns at once: its first draw is
  the prime 32771, its 22nd the prime 32779, and every Miller-Rabin base drawn is 5.\<close>

definition two_primes_source :: rand_source where
  "two_primes_source i = (if i < 21 then 32771 else 32779)"

text \<open>Two more random sources under which the key generator returns at once. Under
  \<open>proth_source\<close> the draws are the primes \<open>59 * 2 ^ 27 + 1\<close> (33 bits) and \<open>23 * 2 ^ 29 + 1\<close>
  (34 bits), and every Miller-Rabin base is 5. Under \<open>liar_source\<close> the draws are
  \<open>4372839077 = 53993 * 80989\<close> and the prime \<open>4294967357\<close>, and every Miller-Rabin base is 22,
  a base for which the composite passes the test.\<close>

definition proth_source :: rand_source where
  "proth_source i = (if i < 21 then 7918845953 else 12348030977)"

definition liar_source :: rand_source where
  "liar_source i = (if i = 0 then 4372839077 else if i = 21 then 4294967357 else 20)"

text \<open>Primality of a natural number, for the moduli \<open>n = p * q\<close> of the key pairs.\<close>

definition is_prime :: "nat \<Rightarrow> bool" where
  "is_prime p = (1 < p \<and> (\<forall>m. m dvd p \<longrightarrow> m = 1 \<or> m = p))"

section \<open>Properties of the block cipher codec\<close>

subsection \<open>Raw modes never read the random source\<close>

lemma encrypt_block_raw: "encrypt_block chunk pub mode k pb cap False r = encrypt_block chunk pub mode k pb cap False r'"
  by (simp add: encrypt_block_def plain_block_of_def cong: sum.case_cong)

lemma encrypt_loop_raw_le:
  assumes "encrypt_loop data pub mode k pb cap rand rnd j i out = Some y"
  shows "encrypt_loop data pub mode k pb cap rand (if rand then rnd else rnd')
           (if rand then j else j') i out = Some y"
proof -
  have "\<forall>j'. encrypt_loop data pub mode k pb cap rand (if rand then rnd else rnd')
           (if rand then j else j') i out = Some y"
  proof (rule encrypt_loop.raw_induct[where P = "\<lambda>data pub mode k pb cap rand rnd j i out y.
           \<forall>j'. encrypt_loop data pub mode k pb cap rand (if rand then rnd else rnd')
             (if rand then j else j') i out = Some y", OF _ assms], intro allI)
    fix f data pub mode k pb cap rand rnd j i out y j'
    assume IH: "\<And>data pub mode k pb cap rand rnd j i out y.
        f data pub mode k pb cap rand rnd j i out = Some y \<Longrightarrow>
        \<forall>j'. encrypt_loop data pub mode k pb cap rand (if rand then rnd else rnd')
             (if rand then j else j') i out = Some y"
      and step: "(if i < length data
         then let chunk = py_slice data (int i) (int i + cap);
                  i' = i + length chunk; r = randbelow rnd j 255 + 1;
                  j' = if rand then Suc j else j
              in case encrypt_block chunk pub mode k pb cap rand r of
                 Inl err \<Rightarrow> Some (Inl err)
               | Inr cb \<Rightarrow> f data pub mode k pb cap rand rnd j' i' (out @ cb)
         else Some (Inr out)) = Some y"
    have IH_T: "encrypt_loop data pub mode k pb cap True rnd j2 i2 out2 = Some y"
      if "rand" "f data pub mode k pb cap rand rnd j2 i2 out2 = Some y" for j2 i2 out2
      using IH[OF that(2)] that(1) by simp
    have IH_F: "encrypt_loop data pub mode k pb cap False rnd' j3 i2 out2 = Some y"
      if "\<not> rand" "f data pub mode k pb cap rand rnd j2 i2 out2 = Some y" for j2 j3 i2 out2
      using IH[OF that(2)] that(1) by simp
    show "encrypt_loop data pub mode k pb cap rand (if rand then rnd else rnd')
             (if rand then j else j') i out = Some y"
    proof (cases rand)
      case True
      have "encrypt_loop data pub mode k pb cap True rnd j i out = Some y"
        using step True IH_T
        by (subst encrypt_loop.simps) (auto simp: Let_def split: sum.splits if_splits)
      with True show ?thesis by simp
    next
      case False
      have eq: "encrypt_block chunk pub mode k pb cap False (randbelow rnd' j' 255 + 1)
              = encrypt_block chunk pub mode k pb cap False (randbelow rnd j 255 + 1)" for chunk
        by (rule encrypt_block_raw)
      have "encrypt_loop data pub mode k pb cap False rnd' j' i out = Some y"
        using step False IH_F
        by (subst encrypt_loop.simps) (auto simp: Let_def eq simp del: One_nat_def split: sum.splits if_splits)
      with False show ?thesis by simp
    qed
  qed
  then show ?thesis by blast
qed

lemma encrypt_loop_raw_eq:
  "encrypt_loop data pub mode k pb cap False rnd j i out = encrypt_loop data pub mode k pb cap False rnd' j' i out"
proof (cases "encrypt_loop data pub mode k pb cap False rnd j i out")
  case (Some y)
  from encrypt_loop_raw_le[OF this, of rnd' j'] Some show ?thesis by simp
next
  case None
  show ?thesis
  proof (cases "encrypt_loop data pub mode k pb cap False rnd' j' i out")
    case (Some y)
    from encrypt_loop_raw_le[OF this, of rnd j] None show ?thesis by simp
  next
    case n2: None
    with None show ?thesis by simp
  qed
qed

text \<open>
  C9. For every byte string \<open>data\<close> and every public key, \<open>encrypt_bytes\<close> in mode
  \<open>raw_fixed\<close>, and likewise in mode \<open>raw_len\<close>, gives the same result (the same bytes,
  or the same exception) under any two random sources: the output is a function of the
  data and the key alone.
\<close>

theorem encrypt_bytes_raw_deterministic:
  "encrypt_bytes data pub ''raw_fixed'' rnd1 = encrypt_bytes data pub ''raw_fixed'' rnd2 \<and>
   encrypt_bytes data pub ''raw_len'' rnd1 = encrypt_bytes data pub ''raw_len'' rnd2"
  using encrypt_loop_raw_eq[of data pub _ _ _ _ rnd1 0 0 "[]" rnd2 0]
  by (simp add: encrypt_bytes_def Let_def)

subsection \<open>Evaluation and size lemmas\<close>

lemma be_digits_numeral:
  "be_digits (numeral k) x = be_digits (pred_numeral k) (x div 256) @ [word_of_int (x mod 256)]"
  by (simp add: numeral_eq_Suc)



lemma mod_bytes_key: "mod_bytes 18446744400127067027 = 9"
  by (simp add: mod_bytes_def bit_length_def bit_length_nat.simps)



lemma encrypt_loop_done:
  "length data \<le> i \<Longrightarrow> encrypt_loop data pub mode k pb cap rand rnd j i out = Some (Inr out)"
  by (subst encrypt_loop.simps) simp


lemma decrypt_block_bad_length:
  "block_plain b priv pb = Inr p \<Longrightarrow> declared_len p < 0 \<or> payload_cap mode pb < declared_len p \<Longrightarrow>
   decrypt_block b priv mode pb = Inl (ValueError ''bad plaintext length'')"
  by (simp add: decrypt_block_def Let_def)

subsection \<open>Empty input\<close>

text \<open>
  C2, as the code has it. For every public key with \<open>plain_block \<ge> 8\<close>, every one of the four
  modes and every random source, \<open>encrypt_bytes\<close> applied to the empty byte string returns
  the empty byte string: the \<open>while i < len(data)\<close> loop is not entered, so no cipher block
  is produced.
\<close>

theorem encrypt_bytes_empty:
  assumes "8 \<le> int (mod_bytes (pub_n pub)) - 1"
    and "mode \<in> {''raw_fixed'', ''raw_len'', ''rand_fixed'', ''rand_len''}"
  shows "encrypt_bytes [] pub mode rnd = Some (Inr [])"
  using assms by (auto simp: encrypt_bytes_def Let_def encrypt_loop_done)

theorem encrypt_bytes_empty_witness:
  "encrypt_bytes [] \<lparr>pub_n = 18446744400127067027, pub_e = 65537\<rparr> ''rand_len'' id = Some (Inr [])"
  using encrypt_bytes_empty[of "\<lparr>pub_n = 18446744400127067027, pub_e = 65537\<rparr>" "''rand_len''" id]
  by (simp add: mod_bytes_key)

text \<open>
  The claim C2 as stated (one block of \<open>k\<close> bytes for the empty input) fails: for the
  modulus \<open>4294967311 * 4294967357\<close> (\<open>k = 9\<close>, \<open>plain_block = 8\<close>) the output in mode
  \<open>raw_fixed\<close> is empty, not 9 bytes long.
\<close>

theorem encrypt_bytes_empty_no_block:
  "8 \<le> int (mod_bytes (pub_n \<lparr>pub_n = 18446744400127067027, pub_e = 65537\<rparr>)) - 1 \<and>
   encrypt_bytes [] \<lparr>pub_n = 18446744400127067027, pub_e = 65537\<rparr> ''raw_fixed'' id = Some (Inr []) \<and>
   length ([] :: bytes) \<noteq> mod_bytes (pub_n \<lparr>pub_n = 18446744400127067027, pub_e = 65537\<rparr>)"
  by (simp add: mod_bytes_key encrypt_bytes_def encrypt_loop_done)




subsection \<open>Rejected ciphertexts\<close>




section \<open>Bytes and integers\<close>

lemma py_slice_nat: "py_slice xs (int a) (int a + int b) = take b (drop a xs)"
proof (cases "a \<le> length xs")
  case True
  then have "nat (min (int a + int b) (int (length xs)) - int a) = min b (length xs - a)"
    by (auto simp: min_def)
  with True show ?thesis by (simp add: py_slice_def min_def)
next
  case False
  then show ?thesis by (simp add: py_slice_def min_def)
qed

lemma py_slice_0: "py_slice xs 0 (int b) = take b xs"
  using py_slice_nat[of xs 0 b] by simp

lemma length_be_digits: "length (be_digits l x) = l"
  by (induction l arbitrary: x) auto

lemma from_bytes_snoc: "from_bytes (bs @ [b]) = from_bytes bs * 256 + uint b"
  by (simp add: from_bytes_def)

lemma from_bytes_Nil: "from_bytes [] = 0"
  by (simp add: from_bytes_def)

lemma from_bytes_append:
  "from_bytes (xs @ ys) = from_bytes xs * 256 ^ length ys + from_bytes ys"
proof (induction ys rule: rev_induct)
  case Nil
  then show ?case by (simp add: from_bytes_Nil)
next
  case (snoc y ys)
  have "from_bytes (xs @ ys @ [y]) = from_bytes ((xs @ ys) @ [y])" by simp
  also have "\<dots> = from_bytes (xs @ ys) * 256 + uint y" by (rule from_bytes_snoc)
  finally show ?case by (simp add: snoc.IH from_bytes_snoc algebra_simps)
qed

lemma from_bytes_nonneg: "0 \<le> from_bytes bs"
  by (induction bs rule: rev_induct) (simp_all add: from_bytes_Nil from_bytes_snoc)

lemma uint_byte_less: "uint (b :: byte) < 256"
  using uint_bounded[of b] by simp

lemma from_bytes_less: "from_bytes bs < 256 ^ length bs"
proof (induction bs rule: rev_induct)
  case Nil
  then show ?case by (simp add: from_bytes_Nil)
next
  case (snoc b bs)
  have "from_bytes bs + 1 \<le> 256 ^ length bs" using snoc.IH by simp
  then have "(from_bytes bs + 1) * 256 \<le> 256 ^ length bs * 256" by (rule mult_right_mono) simp
  with uint_byte_less[of b] show ?case by (simp add: from_bytes_snoc algebra_simps)
qed

lemma uint_byte_of_mod: "uint (word_of_int (x mod 256) :: byte) = x mod 256"
  by (simp add: uint_word_of_int)

lemma from_bytes_be_digits: "0 \<le> x \<Longrightarrow> x < 256 ^ l \<Longrightarrow> from_bytes (be_digits l x) = x"
proof (induction l arbitrary: x)
  case 0
  then show ?case by (simp add: from_bytes_Nil)
next
  case (Suc l)
  have "x div 256 < 256 ^ l" using Suc.prems by (simp add: div_less_iff_less_mult)  
  moreover have "0 \<le> x div 256" using Suc.prems by simp
  ultimately have "from_bytes (be_digits l (x div 256)) = x div 256" by (rule Suc.IH[rotated])
  then show ?case by (simp add: from_bytes_snoc uint_byte_of_mod)
qed

lemma be_digits_from_bytes: "be_digits (length bs) (from_bytes bs) = bs"
proof (induction bs rule: rev_induct)
  case Nil
  then show ?case by simp
next
  case (snoc b bs)
  have u: "0 \<le> uint b" "uint b < 256" using uint_byte_less[of b] by simp_all
  then have d: "(from_bytes bs * 256 + uint b) div 256 = from_bytes bs" by simp
  from u have m: "(from_bytes bs * 256 + uint b) mod 256 = uint b" by simp
  from u have "uint b mod 256 = uint b" by simp
  then show ?case by (simp add: from_bytes_snoc d snoc.IH)
qed

section \<open>Properties of the binary sub-protocol\<close>

subsection \<open>Multi-file packets\<close>

lemma entry_bytes_simps:
  "entry_bytes [] = []"
  "entry_bytes (b # bs) = be_digits 4 (int (length b)) @ b @ entry_bytes bs"
  by (simp_all add: entry_bytes_def)

lemma struct_unpack_pack:
  "x < 2 ^ 32 \<Longrightarrow> struct_unpack_I (be_digits 4 (int x)) = Inr x"
proof -
  assume "x < 2 ^ 32"
  then have "int x < 256 ^ 4" by simp
  then have "from_bytes (be_digits 4 (int x)) = int x"
    by (intro from_bytes_be_digits) simp_all
  then show ?thesis by (simp add: struct_unpack_I_def length_be_digits)
qed

lemma pack_entries_ok:
  "\<forall>b \<in> set bs. length b < 2 ^ 32 \<Longrightarrow> pack_entries bs out = Inr (out @ entry_bytes bs)"
  by (induction bs arbitrary: out) (simp_all add: entry_bytes_simps struct_pack_I_def)

lemma unpack_entries_step:
  assumes "off + 4 \<le> length blob"
    and "struct_unpack_I (py_slice blob (int off) (int off + 4)) = Inr n"
    and "off + 4 + n \<le> length blob"
  shows "unpack_entries (Suc c) blob off out
           = unpack_entries c blob (off + 4 + n)
               (out @ [py_slice blob (int (off + 4)) (int (off + 4) + int n)])"
  using assms by (simp add: Let_def)

lemma unpack_entries_short_header:
  "length blob < off + 4 \<Longrightarrow>
   unpack_entries (Suc c) blob off out = Inl (ValueError ''bad files blob'')"
  by simp

lemma unpack_entries_short_body:
  assumes "off + 4 \<le> length blob"
    and "struct_unpack_I (py_slice blob (int off) (int off + 4)) = Inr n"
    and "length blob < off + 4 + n"
  shows "unpack_entries (Suc c) blob off out = Inl (ValueError ''bad files blob'')"
  using assms by (simp add: Let_def)

lemma unpack_entries_ok:
  "\<forall>b \<in> set bs. length b < 2 ^ 32 \<Longrightarrow>
   unpack_entries (length bs) (pre @ entry_bytes bs @ rest) (length pre) out = Inr (out @ bs)"
proof (induction bs arbitrary: pre out)
  case Nil
  then show ?case by simp
next
  case (Cons b bs)
  define h where "h = be_digits 4 (int (length b))"
  define blob where "blob = pre @ entry_bytes (b # bs) @ rest"
  have lh: "length h = 4" by (simp add: h_def length_be_digits)
  have blob_eq: "blob = pre @ h @ b @ entry_bytes bs @ rest"
    by (simp add: blob_def h_def entry_bytes_simps)
  have blob_eq2: "blob = (pre @ h @ b) @ entry_bytes bs @ rest"
    by (simp add: blob_eq)
  have lb: "length b < 2 ^ 32" using Cons.prems by simp
  have sl1: "py_slice blob (int (length pre)) (int (length pre) + 4) = h"
    using py_slice_nat[of blob "length pre" 4] by (simp add: blob_eq lh)
  have sl2: "py_slice blob (int (length pre + 4)) (int (length pre + 4) + int (length b)) = b"
    using py_slice_nat[of blob "length pre + 4" "length b"] by (simp add: blob_eq lh)
  have un: "struct_unpack_I (py_slice blob (int (length pre)) (int (length pre) + 4)) = Inr (length b)"
    unfolding sl1 h_def by (rule struct_unpack_pack[OF lb])
  have l1: "length pre + 4 \<le> length blob" by (simp add: blob_eq lh)
  have l2: "length pre + 4 + length b \<le> length blob" by (simp add: blob_eq lh)
  have IH: "unpack_entries (length bs) blob (length (pre @ h @ b)) (out @ [b]) = Inr ((out @ [b]) @ bs)"
    unfolding blob_eq2 using Cons.prems by (intro Cons.IH) simp
  have "unpack_entries (Suc (length bs)) blob (length pre) out
      = unpack_entries (length bs) blob (length pre + 4 + length b) (out @ [b])"
    using unpack_entries_step[OF l1 un l2] by (simp only: sl2)
  also have "\<dots> = Inr ((out @ [b]) @ bs)"
    using IH by (simp add: lh add.assoc)
  finally show ?case by (simp add: blob_def)
qed

lemma unpack_entries_trunc:
  "\<forall>b \<in> set bs. length b < 2 ^ 32 \<Longrightarrow> length pre \<le> n \<Longrightarrow>
   n < length pre + length (entry_bytes bs) \<Longrightarrow>
   unpack_entries (length bs) (take n (pre @ entry_bytes bs)) (length pre) out
     = Inl (ValueError ''bad files blob'')"
proof (induction bs arbitrary: pre out)
  case Nil
  then show ?case by (simp add: entry_bytes_simps)
next
  case (Cons b bs)
  define h where "h = be_digits 4 (int (length b))"
  define full where "full = pre @ entry_bytes (b # bs)"
  define blob where "blob = take n full"
  have lh: "length h = 4" by (simp add: h_def length_be_digits)
  have full_eq: "full = pre @ h @ b @ entry_bytes bs"
    by (simp add: full_def h_def entry_bytes_simps)
  have full_eq2: "full = (pre @ h @ b) @ entry_bytes bs"
    by (simp add: full_eq)
  have lb: "length b < 2 ^ 32" using Cons.prems by simp
  have nfull: "n < length full"
    using Cons.prems by (simp add: full_def)
  have lenblob: "length blob = n"
    using nfull by (simp add: blob_def)
  show ?case
  proof (cases "n < length pre + 4")
    case True
    then have "length blob < length pre + 4" using lenblob by simp
    then have "unpack_entries (Suc (length bs)) blob (length pre) out = Inl (ValueError ''bad files blob'')"
      by (rule unpack_entries_short_header)
    then show ?thesis by (simp add: blob_def full_def)
  next
    case False
    then have n4: "length pre + 4 \<le> n" by simp
    then have l1: "length pre + 4 \<le> length blob" using lenblob by simp
    have "take 4 (drop (length pre) blob) = take 4 (drop (length pre) full)"
      using n4 by (simp add: blob_def drop_take min_def)
    also have "\<dots> = h" by (simp add: full_eq lh)
    finally have sl1: "py_slice blob (int (length pre)) (int (length pre) + 4) = h"
      using py_slice_nat[of blob "length pre" 4] by simp
    have un: "struct_unpack_I (py_slice blob (int (length pre)) (int (length pre) + 4)) = Inr (length b)"
      unfolding sl1 h_def by (rule struct_unpack_pack[OF lb])
    show ?thesis
    proof (cases "n < length pre + 4 + length b")
      case True
      then have "length blob < length pre + 4 + length b" using lenblob by simp
      from unpack_entries_short_body[OF l1 un this]
      show ?thesis by (simp add: blob_def full_def)
    next
      case False
      then have nb: "length pre + 4 + length b \<le> n" by simp
      then have l2: "length pre + 4 + length b \<le> length blob" using lenblob by simp
      have "take (length b) (drop (length pre + 4) blob) = take (length b) (drop (length pre + 4) full)"
        using nb by (simp add: blob_def drop_take min_def)
      also have "\<dots> = b" by (simp add: full_eq lh)
      finally have sl2: "py_slice blob (int (length pre + 4)) (int (length pre + 4) + int (length b)) = b"
        using py_slice_nat[of blob "length pre + 4" "length b"] by simp
      have IH: "unpack_entries (length bs) blob (length (pre @ h @ b)) (out @ [b])
                  = Inl (ValueError ''bad files blob'')"
        unfolding blob_def full_eq2 using Cons.prems nb nfull
        by (intro Cons.IH) (simp_all add: full_eq lh)
      have "unpack_entries (Suc (length bs)) blob (length pre) out
          = unpack_entries (length bs) blob (length pre + 4 + length b) (out @ [b])"
        using unpack_entries_step[OF l1 un l2] by (simp only: sl2)
      also have "\<dots> = Inl (ValueError ''bad files blob'')"
        using IH by (simp add: lh add.assoc)
      finally show ?thesis by (simp add: blob_def full_def)
    qed
  qed
qed

text \<open>
  C7, as the code has it. For every list of fewer than \<open>2^32\<close> byte buffers, each shorter
  than \<open>2^32\<close> bytes (the empty list included), \<open>_pack_multi_files\<close> returns a packet,
  \<open>_unpack_multi_files\<close> of that packet returns the same buffers in the same order, and
  \<open>_unpack_multi_files\<close> of every proper prefix of the packet (a truncated entry, or a
  count that the remaining bytes cannot satisfy) fails with the format error "bad files
  blob". Packing the empty list gives exactly the 4 bytes of the count 0.
\<close>

theorem multi_files_round_trip:
  assumes "length bufs < 2 ^ 32" and "\<forall>b \<in> set bufs. length b < 2 ^ 32"
  shows "pack_multi_files [] = Inr [0, 0, 0, 0] \<and>
         (\<exists>packet. pack_multi_files bufs = Inr packet \<and>
                   unpack_multi_files packet = Inr bufs \<and>
                   (\<forall>n < length packet.
                      unpack_multi_files (take n packet) = Inl (ValueError ''bad files blob'')))"
proof -
  let ?c = "be_digits 4 (int (length bufs))"
  let ?packet = "?c @ entry_bytes bufs"
  have e: "pack_multi_files [] = Inr [0, 0, 0, 0]"
    by (simp add: pack_multi_files_def struct_pack_I_def be_digits_numeral)
  have p: "pack_multi_files bufs = Inr ?packet"
    using assms by (simp add: pack_multi_files_def struct_pack_I_def pack_entries_ok)
  have cnt: "struct_unpack_I ?c = Inr (length bufs)"
    using assms(1) by (rule struct_unpack_pack)
  have hd0: "py_slice ?packet 0 4 = ?c"
    using py_slice_0[of ?packet 4] by (simp add: length_be_digits)
  have u: "unpack_multi_files ?packet = Inr bufs"
    using unpack_entries_ok[OF assms(2), of ?c "[]" "[]"] cnt
    by (simp add: unpack_multi_files_def hd0 length_be_digits)
  have t: "unpack_multi_files (take n ?packet) = Inl (ValueError ''bad files blob'')"
    if "n < length ?packet" for n
  proof (cases "n < 4")
    case True
    then show ?thesis by (simp add: unpack_multi_files_def length_be_digits)
  next
    case False
    then have n4: "4 \<le> n" by simp
    have "take 4 (take n ?packet) = ?c" using n4 by (simp add: length_be_digits min_def)
    then have hd: "py_slice (take n ?packet) 0 4 = ?c"
      using py_slice_0[of "take n ?packet" 4] by simp
    have "unpack_entries (length bufs) (take n ?packet) (length ?c) []
            = Inl (ValueError ''bad files blob'')"
      using that n4 by (intro unpack_entries_trunc[OF assms(2)]) (simp_all add: length_be_digits)
    then show ?thesis
      using that n4 hd cnt by (simp add: unpack_multi_files_def length_be_digits del: append_assoc take_append)
  qed
  from e p u t show ?thesis by blast
qed

theorem multi_files_round_trip_witness:
  "\<exists>packet. pack_multi_files [[], [1, 2, 3, 4, 5], [7]] = Inr packet \<and>
     unpack_multi_files packet = Inr [[], [1, 2, 3, 4, 5], [7]] \<and>
     (\<forall>n < length packet. unpack_multi_files (take n packet) = Inl (ValueError ''bad files blob''))"
  using multi_files_round_trip[of "[[], [1, 2, 3, 4, 5], [7]]"] by simp

text \<open>
  The claim C7 as stated (every finite list of buffers) fails for a buffer of \<open>2^32\<close>
  bytes: its length does not fit the 4-byte field and \<open>struct.pack\<close> raises.
\<close>

theorem pack_multi_files_too_long:
  "pack_multi_files [replicate 4294967296 0] = Inl StructError"
  by (simp add: pack_multi_files_def struct_pack_I_def be_digits_numeral)

subsection \<open>Header and payload packets\<close>

text \<open>
  C6 at a failing input. The packet declares a 2-byte header (\<open>N.\<close>, the pickle of
  \<open>None\<close>) and a 5-byte payload, but ends after the payload length. \<open>unpack_pickle_bin\<close>
  has no length check: the slice \<open>packet[off:off+blen]\<close> is cut to the buffer, and the
  function returns the header with an empty payload instead of failing.
\<close>

theorem unpack_pickle_bin_payload_overrun:
  "unpack_pickle_bin loads [0, 0, 0, 2, 78, 46, 0, 0, 0, 5]
     = (case loads [78, 46] of Inl err \<Rightarrow> Inl err | Inr header \<Rightarrow> Inr (header, []))"
  by (simp add: unpack_pickle_bin_def py_slice_def struct_unpack_I_def from_bytes_def
        split: sum.splits)

section \<open>Properties of the handshake\<close>

lemma py_get_not_hello:
  "map_of kvs ''type'' \<noteq> Some (JStr ''hello'') \<Longrightarrow>
   \<exists>t. py_get (JDict kvs) ''type'' = Inr t \<and> t \<noteq> JStr ''hello''"
  by (cases "map_of kvs ''type''") auto

lemma on_exception_no_decrypt: "filter is_decrypt (on_exception lib e cp) = []"
  by (cases cp) (simp_all add: on_exception_def Let_def)

text \<open>With a \<open>hello\<close> frame, a readable public key and a ciphertext received, the
  handler does decrypt: the trace of the other branch is not empty of decryptions by
  construction of the model.\<close>

lemma hello_frame_decrypts:
  assumes "recv_first env = Inr (JDict [(''type'', JStr ''hello''), (''pub'', jpub)])"
    and "pub_from_json lib jpub = Inr client_pub"
    and "send_raises env 0 = None"
    and "recv_enc env = Inr enc"
  shows "filter is_decrypt (serve_conn lib crypto env) = [Decrypt enc]"
  using assms
  by (auto simp: serve_conn_def recv_encrypted_def on_exception_no_decrypt
      split: sum.splits response.splits option.splits)

text \<open>
  C8. On every connection whose first frame is a dictionary whose \<open>type\<close> is not the
  string \<open>hello\<close> (\<open>{type: "ping"}\<close>, or no \<open>type\<close> at all), the first action of \<open>serve\<close>
  and of \<open>serve_upload\<close> is to send the plaintext frame \<open>{ok: false, error: "expected
  hello"}\<close>, and no later action on that connection is a decryption, whatever the peer
  sends and whether or not the sends succeed; when the send succeeds, nothing else happens
  on the connection.
\<close>

theorem first_frame_not_hello:
  assumes "recv_first env = Inr (JDict kvs)"
    and "map_of kvs ''type'' \<noteq> Some (JStr ''hello'')"
  shows "take 1 (serve_conn lib crypto env) = [SendMsg expected_hello] \<and>
         filter is_decrypt (serve_conn lib crypto env) = [] \<and>
         take 1 (serve_upload_conn lib crypto env) = [SendMsg expected_hello] \<and>
         filter is_decrypt (serve_upload_conn lib crypto env) = [] \<and>
         (send_raises env 0 = None \<longrightarrow>
            serve_conn lib crypto env = [SendMsg expected_hello] \<and>
            serve_upload_conn lib crypto env = [SendMsg expected_hello])"
proof -
  from py_get_not_hello[OF assms(2)] obtain t
    where t: "py_get (JDict kvs) ''type'' = Inr t" "t \<noteq> JStr ''hello''" by blast
  let ?rest = "case send_raises env 0 of Some err \<Rightarrow> on_exception lib err None | None \<Rightarrow> []"
  have s: "serve_conn lib crypto env = SendMsg expected_hello # ?rest"
    using assms(1) t by (simp add: serve_conn_def)
  have u: "serve_upload_conn lib crypto env = SendMsg expected_hello # ?rest"
    using assms(1) t by (simp add: serve_upload_conn_def)
  have r: "filter is_decrypt ?rest = []"
    by (cases "send_raises env 0") (simp_all add: on_exception_no_decrypt)
  show ?thesis unfolding s u using r by simp
qed

theorem first_frame_not_hello_witness:
  "take 1 (serve_conn
      \<lparr>py_int = (\<lambda>j. Inl TypeError), py_str = (\<lambda>i. ''7''), str_of_error = (\<lambda>e. ''error''),
       pickle_loads = (\<lambda>b. Inl TypeError), handle = (\<lambda>j. Inl TypeError),
       process_upload = (\<lambda>h d p. [])\<rparr>
      \<lparr>ctx_pub = \<lparr>pub_n = 18446744400127067027, pub_e = 65537\<rparr>,
       ctx_priv = \<lparr>priv_n = 18446744400127067027, priv_d = 161282703455311913\<rparr>,
       ctx_mode = ''rand_len''\<rparr>
      \<lparr>recv_first = Inr (JDict [(''type'', JStr ''ping'')]), recv_enc = Inr [1, 2, 3],
       send_raises = (\<lambda>t. None)\<rparr>) = [SendMsg expected_hello] \<and>
   filter is_decrypt (serve_conn
      \<lparr>py_int = (\<lambda>j. Inl TypeError), py_str = (\<lambda>i. ''7''), str_of_error = (\<lambda>e. ''error''),
       pickle_loads = (\<lambda>b. Inl TypeError), handle = (\<lambda>j. Inl TypeError),
       process_upload = (\<lambda>h d p. [])\<rparr>
      \<lparr>ctx_pub = \<lparr>pub_n = 18446744400127067027, pub_e = 65537\<rparr>,
       ctx_priv = \<lparr>priv_n = 18446744400127067027, priv_d = 161282703455311913\<rparr>,
       ctx_mode = ''rand_len''\<rparr>
      \<lparr>recv_first = Inr (JDict [(''type'', JStr ''ping'')]), recv_enc = Inr [1, 2, 3],
       send_raises = (\<lambda>t. None)\<rparr>) = []"
  using first_frame_not_hello[of "\<lparr>recv_first = Inr (JDict [(''type'', JStr ''ping'')]),
      recv_enc = Inr [1, 2, 3], send_raises = (\<lambda>t. None)\<rparr>" "[(''type'', JStr ''ping'')]"]
  by simp

section \<open>Properties of the key generator\<close>

lemma egcd_bezout: "egcd a b = (g, x, y) \<Longrightarrow> a * x + b * y = g"
proof (induction a b arbitrary: g x y rule: egcd.induct)
  case (1 a b)
  show ?case
  proof (cases "b = 0")
    case True
    with "1.prems" show ?thesis by (subst (asm) egcd.simps) simp
  next
    case False
    obtain g' x' y' where r: "egcd b (a mod b) = (g', x', y')"
      by (cases "egcd b (a mod b)") auto
    from "1.IH"[OF False r] have ih: "b * x' + (a mod b) * y' = g'" .
    from "1.prems" False r have e: "g = g'" "x = y'" "y = x' - (a div b) * y'"
      by (subst (asm) egcd.simps, simp)+
    have "a = (a div b) * b + a mod b" by simp
    then have "a * y' = (a div b) * b * y' + (a mod b) * y'"
      by (metis distrib_right)
    with ih show ?thesis unfolding e by (simp add: algebra_simps)
  qed
qed

lemma modinv_correct:
  assumes "modinv a m = Inr d" and "1 < m"
  shows "(a * d) mod m = 1 \<and> 0 \<le> d \<and> d < m"
proof -
  obtain g x y where r: "egcd a m = (g, x, y)" by (cases "egcd a m") auto
  with assms have g: "g = 1" and d: "d = x mod m"
    by (auto simp: modinv_def split: if_splits)
  from egcd_bezout[OF r] g have "a * x + m * y = 1" by simp
  then have "a * x = 1 - m * y" by simp
  then have "(a * x) mod m = (1 - m * y) mod m" by simp
  also have "\<dots> = 1 mod m" by (metis mod_diff_right_eq mod_mult_self1_is_0 diff_zero)
  also have "\<dots> = 1" using assms(2) by simp
  finally have "(a * x) mod m = 1" .
  moreover have "(a * d) mod m = (a * x) mod m" unfolding d by (simp add: mod_mult_right_eq)
  ultimately show ?thesis using assms(2) d by simp
qed

lemma is_probable_prime_True_ge2:
  "is_probable_prime n k rnd j = Some (Inr (True, j')) \<Longrightarrow> 2 \<le> n"
  by (auto simp: is_probable_prime_def split: if_splits)


lemma gen_prime_loop_ge2:
  assumes "gen_prime_loop bits rnd j = Some (Inr (x, j'))"
  shows "2 \<le> x"
proof -
  have "\<forall>x j'. r = Inr (x, j') \<longrightarrow> 2 \<le> x" if "gen_prime_loop bits rnd j = Some r" for r
    using that
  proof (rule gen_prime_loop.raw_induct[where P = "\<lambda>bits rnd j r. \<forall>x j'. r = Inr (x, j') \<longrightarrow> 2 \<le> x", rotated])
    fix f bits rnd j r
    assume IH: "\<And>bits rnd j r. f bits rnd j = Some r \<Longrightarrow> \<forall>x j'. r = Inr (x, j') \<longrightarrow> 2 \<le> x"
      and step: "(let x = int (randbits rnd j (nat bits)) OR push_bit (nat (bits - 1)) 1 OR 1
          in case is_probable_prime x 20 rnd (Suc j) of None \<Rightarrow> None
             | Some (Inl err) \<Rightarrow> Some (Inl err)
             | Some (Inr (ok, j')) \<Rightarrow> if ok then Some (Inr (x, j')) else f bits rnd j') = Some r"
    show "\<forall>x j'. r = Inr (x, j') \<longrightarrow> 2 \<le> x"
      using step IH
      by (auto simp: Let_def split: option.splits sum.splits prod.splits if_splits
            dest: is_probable_prime_True_ge2)
  qed
  with assms show ?thesis by blast
qed

lemma gen_prime_ge2: "gen_prime bits rnd j = Some (Inr (x, j')) \<Longrightarrow> 2 \<le> x"
  by (auto simp: gen_prime_def split: if_splits dest: gen_prime_loop_ge2)

abbreviation keypair_ok ::
  "int \<Rightarrow> int \<Rightarrow> rand_source \<Rightarrow> (PublicKey \<times> PrivateKey) \<times> nat \<Rightarrow> bool" where
  "keypair_ok bits e rnd r \<equiv>
     (case r of ((pub, priv), j') \<Rightarrow>
        (\<exists>p q j0 j1.
           gen_prime (bits div 2) rnd j0 = Some (Inr (p, j1)) \<and>
           gen_prime (bits - bits div 2) rnd j1 = Some (Inr (q, j')) \<and>
           pub_n pub = p * q \<and> p \<noteq> q \<and>
           (e * priv_d priv) mod ((p - 1) * (q - 1)) = 1 \<and>
           0 \<le> priv_d priv \<and> priv_d priv < (p - 1) * (q - 1) \<and>
           pub_n pub = priv_n priv \<and> pub_e pub = e \<and>
           ((p - 1) * (q - 1)) mod e \<noteq> 0))"

lemma generate_keypair_loop_ok:
  assumes "generate_keypair_loop bits half e rnd j = Some r"
  shows "half = bits div 2 \<longrightarrow> (\<forall>kp. r = Inr kp \<longrightarrow> keypair_ok bits e rnd kp)"
  using assms
proof (rule generate_keypair_loop.raw_induct[where P = "\<lambda>bits half e rnd j r.
          half = bits div 2 \<longrightarrow> (\<forall>kp. r = Inr kp \<longrightarrow> keypair_ok bits e rnd kp)", rotated])
  fix f bits half e rnd j r
  assume IH: "\<And>bits half e rnd j r. f bits half e rnd j = Some r \<Longrightarrow>
          half = bits div 2 \<longrightarrow> (\<forall>kp. r = Inr kp \<longrightarrow> keypair_ok bits e rnd kp)"
    and step: "(case gen_prime half rnd j of None \<Rightarrow> None
      | Some (Inl err) \<Rightarrow> Some (Inl err)
      | Some (Inr (p, j1)) \<Rightarrow>
          case gen_prime (bits - half) rnd j1 of None \<Rightarrow> None
          | Some (Inl err) \<Rightarrow> Some (Inl err)
          | Some (Inr (q, j2)) \<Rightarrow>
              if p = q then f bits half e rnd j2
              else let n = p * q; phi = (p - 1) * (q - 1)
                   in if e = 0 then Some (Inl ZeroDivisionError)
                      else if phi mod e = 0
                           then f bits half e rnd j2
                           else case modinv e phi of
                                Inl err \<Rightarrow> Some (Inl err)
                                | Inr d \<Rightarrow>
                                    Some (Inr ((\<lparr>pub_n = n, pub_e = e\<rparr>, \<lparr>priv_n = n, priv_d = d\<rparr>), j2))) =
     Some r"
  show "half = bits div 2 \<longrightarrow> (\<forall>kp. r = Inr kp \<longrightarrow> keypair_ok bits e rnd kp)"
  proof (intro impI allI)
    fix kp
    assume h: "half = bits div 2" and rk: "r = Inr kp"
    from step rk obtain p j1 where gp: "gen_prime half rnd j = Some (Inr (p, j1))"
      by (auto split: option.splits sum.splits)
    from step rk gp obtain q j2 where gq: "gen_prime (bits - half) rnd j1 = Some (Inr (q, j2))"
      by (auto split: option.splits sum.splits)
    show "keypair_ok bits e rnd kp"
    proof (cases "p = q \<or> (e \<noteq> 0 \<and> ((p - 1) * (q - 1)) mod e = 0)")
      case True
      with step gp gq have "f bits half e rnd j2 = Some r"
        by (cases "p = q") (simp_all add: Let_def mod_eq_0_iff_dvd)
      from IH[OF this] h rk show ?thesis by blast
    next
      case False
      then have ne: "p \<noteq> q" by auto
      from step gp gq ne rk have e0: "e \<noteq> 0" by (auto simp: Let_def split: if_splits)
      with False have pm: "((p - 1) * (q - 1)) mod e \<noteq> 0" by auto
      from step gp gq ne e0 pm rk obtain d where
        md: "modinv e ((p - 1) * (q - 1)) = Inr d"
        and kp: "kp = ((\<lparr>pub_n = p * q, pub_e = e\<rparr>, \<lparr>priv_n = p * q, priv_d = d\<rparr>), j2)"
        by (auto simp: Let_def split: sum.splits)
      have "2 \<le> p" "2 \<le> q" using gen_prime_ge2 gp gq by blast+
      with ne have "3 \<le> p \<or> 3 \<le> q" by linarith
      with \<open>2 \<le> p\<close> \<open>2 \<le> q\<close> have phi: "1 < (p - 1) * (q - 1)"
      proof -
        have a: "1 \<le> p - 1" "1 \<le> q - 1" using \<open>2 \<le> p\<close> \<open>2 \<le> q\<close> by simp_all
        from \<open>3 \<le> p \<or> 3 \<le> q\<close> show ?thesis
        proof
          assume "3 \<le> p"
          then have "2 \<le> p - 1" by simp
          then have "2 * 1 \<le> (p - 1) * (q - 1)" using a(2) by (intro mult_mono) simp_all
          then show ?thesis by simp
        next
          assume "3 \<le> q"
          then have "2 \<le> q - 1" by simp
          then have "1 * 2 \<le> (p - 1) * (q - 1)" using a(1) by (intro mult_mono) simp_all
          then show ?thesis by simp
        qed
      qed
      from modinv_correct[OF md phi] gp gq ne pm h show ?thesis
        unfolding kp by auto
    qed
  qed
qed


lemma rounds_all_pass:
  assumes "\<And>i. j \<le> i \<Longrightarrow> i < j + t \<Longrightarrow>
             check (int (randbelow rnd i (nat (n - 3))) + 2) d s n = Inr True"
  shows "rounds t n d s rnd j = Inr (True, j + t)"
  using assms
proof (induction t arbitrary: j)
  case 0
  then show ?case by simp
next
  case (Suc t)
  have c: "check (int (randbelow rnd j (nat (n - 3))) + 2) d s n = Inr True"
    by (rule Suc.prems) simp_all
  have "rounds t n d s rnd (Suc j) = Inr (True, Suc j + t)"
    by (rule Suc.IH) (rule Suc.prems, simp_all)
  with c show ?case by (simp add: Let_def)
qed

lemma check_32771: "check 5 16385 (Suc 0) 32771 = Inr True"
  by (simp add: check_def py_pow_def pow_mod.simps)

lemma check_32779: "check 5 16389 (Suc 0) 32779 = Inr True"
  by (simp add: check_def py_pow_def pow_mod.simps)

lemma is_probable_prime_32771:
  assumes "\<And>i. j \<le> i \<Longrightarrow> i < j + 20 \<Longrightarrow> rnd i mod 32768 = 3"
  shows "is_probable_prime 32771 20 rnd j = Some (Inr (True, j + 20))"
proof -
  have s: "small_prime_test small_primes 32771 = None" by (simp add: small_primes_def)
  have t: "split_twos (32771 - 1) 0 = Some (16385, 1)" by (simp add: split_twos.simps)
  have r: "rounds 20 32771 16385 1 rnd j = Inr (True, j + 20)"
  proof (rule rounds_all_pass)
    fix i assume "j \<le> i" "i < j + 20"
    then have "rnd i mod 32768 = 3" by (rule assms)
    then show "check (int (randbelow rnd i (nat (32771 - 3))) + 2) 16385 1 32771 = Inr True"
      by (simp add: randbelow_def check_32771)
  qed
  show ?thesis unfolding is_probable_prime_def s t using r by simp
qed

lemma is_probable_prime_32779:
  assumes "\<And>i. j \<le> i \<Longrightarrow> i < j + 20 \<Longrightarrow> rnd i mod 32776 = 3"
  shows "is_probable_prime 32779 20 rnd j = Some (Inr (True, j + 20))"
proof -
  have s: "small_prime_test small_primes 32779 = None" by (simp add: small_primes_def)
  have t: "split_twos (32779 - 1) 0 = Some (16389, 1)" by (simp add: split_twos.simps)
  have r: "rounds 20 32779 16389 1 rnd j = Inr (True, j + 20)"
  proof (rule rounds_all_pass)
    fix i assume "j \<le> i" "i < j + 20"
    then have "rnd i mod 32776 = 3" by (rule assms)
    then show "check (int (randbelow rnd i (nat (32779 - 3))) + 2) 16389 1 32779 = Inr True"
      by (simp add: randbelow_def check_32779)
  qed
  show ?thesis unfolding is_probable_prime_def s t using r by simp
qed

lemma gen_prime_32771:
  assumes "rnd j mod 65536 = 32771"
    and "\<And>i. Suc j \<le> i \<Longrightarrow> i < Suc j + 20 \<Longrightarrow> rnd i mod 32768 = 3"
  shows "gen_prime 16 rnd j = Some (Inr (32771, j + 21))"
proof -
  have "is_probable_prime 32771 20 rnd (Suc j) = Some (Inr (True, Suc j + 20))"
    by (rule is_probable_prime_32771) (rule assms(2))
  then show ?thesis unfolding gen_prime_def
    by (subst gen_prime_loop.simps) (simp add: randbits_def assms(1))
qed

lemma gen_prime_32779:
  assumes "rnd j mod 65536 = 32779"
    and "\<And>i. Suc j \<le> i \<Longrightarrow> i < Suc j + 20 \<Longrightarrow> rnd i mod 32776 = 3"
  shows "gen_prime 16 rnd j = Some (Inr (32779, j + 21))"
proof -
  have "is_probable_prime 32779 20 rnd (Suc j) = Some (Inr (True, Suc j + 20))"
    by (rule is_probable_prime_32779) (rule assms(2))
  then show ?thesis unfolding gen_prime_def
    by (subst gen_prime_loop.simps) (simp add: randbits_def assms(1))
qed

lemma gen_prime_first: "gen_prime 16 two_primes_source 0 = Some (Inr (32771, 21))"
  using gen_prime_32771[of two_primes_source 0] by (simp add: two_primes_source_def)

lemma gen_prime_second: "gen_prime 16 two_primes_source 21 = Some (Inr (32779, 42))"
  using gen_prime_32779[of two_primes_source 21] by (simp add: two_primes_source_def)


lemma modinv_small: "modinv 65537 1074135060 = Inr 489955193"
  by (simp add: modinv_def egcd.simps)

lemma generate_keypair_small:
  "generate_keypair 32 65537 two_primes_source 0 =
     Some (Inr ((\<lparr>pub_n = 1074200609, pub_e = 65537\<rparr>, \<lparr>priv_n = 1074200609, priv_d = 489955193\<rparr>), 42))"
  unfolding generate_keypair_def
  by (subst generate_keypair_loop.simps) (simp add: gen_prime_first gen_prime_second modinv_small)



section \<open>Prime numbers and the RSA identity\<close>

text \<open>The congruence behind \<open>rsa_decrypt_int (rsa_encrypt_int m)\<close>: Fermat's little theorem,
  proved from the binomial theorem, and from it \<open>m ^ (e * d) mod (p * q) = m mod (p * q)\<close>
  for distinct primes \<open>p\<close>, \<open>q\<close> and \<open>e * d mod ((p - 1) * (q - 1)) = 1\<close>.\<close>

lemma is_prime_coprime: "is_prime p \<Longrightarrow> \<not> p dvd a \<Longrightarrow> coprime p a"
proof -
  assume p: "is_prime p" and n: "\<not> p dvd a"
  have "gcd p a dvd p" by simp
  with p have "gcd p a = 1 \<or> gcd p a = p" by (simp add: is_prime_def)
  moreover have "gcd p a \<noteq> p" using n by (metis gcd_dvd2)
  ultimately show ?thesis by (simp add: coprime_iff_gcd_eq_1)
qed

lemma is_prime_dvd_choose:
  assumes "is_prime p" "0 < k" "k < p"
  shows "p dvd (p choose k)"
proof -
  have "k * (p choose k) = p * ((p - 1) choose (k - 1))"
    using assms(2) by (rule times_binomial_minus1_eq)
  then have "p dvd k * (p choose k)" by simp
  moreover have "\<not> p dvd k" using assms(2,3) by (auto dest: dvd_imp_le)
  then have "coprime p k" using assms(1) by (rule is_prime_coprime[rotated])
  ultimately show ?thesis by (simp add: coprime_dvd_mult_right_iff)
qed

lemma fermat_step:
  assumes "is_prime p"
  shows "(a + 1) ^ p mod p = (a ^ p + 1) mod p"
proof -
  have p1: "1 < p" using assms by (simp add: is_prime_def)
  have "(a + 1) ^ p = (\<Sum>k\<le>p. (p choose k) * a ^ k * 1 ^ (p - k))"
    using binomial[of a 1 p] by simp
  also have "\<dots> = (\<Sum>k\<le>p. (p choose k) * a ^ k)" by simp
  also have "{..p} = insert 0 (insert p {1..<p})" using p1 by auto
  also have "(\<Sum>k\<in>insert 0 (insert p {1..<p}). (p choose k) * a ^ k)
           = 1 + (a ^ p + (\<Sum>k\<in>{1..<p}. (p choose k) * a ^ k))"
    using p1 by simp
  finally have e: "(a + 1) ^ p = (\<Sum>k\<in>{1..<p}. (p choose k) * a ^ k) + (a ^ p + 1)" by simp
  have "p dvd (\<Sum>k\<in>{1..<p}. (p choose k) * a ^ k)"
    by (rule dvd_sum) (simp add: is_prime_dvd_choose[OF assms])
  then have "(\<Sum>k\<in>{1..<p}. (p choose k) * a ^ k) mod p = 0" by simp
  then show ?thesis unfolding e by (metis add_cancel_left_left mod_add_left_eq)
qed

lemma fermat_little: "is_prime p \<Longrightarrow> a ^ p mod p = a mod p"
proof (induction a)
  case 0
  then have "0 < p" by (simp add: is_prime_def)
  then show ?case by (simp add: power_0_left)
next
  case (Suc a)
  have "Suc a ^ p mod p = Suc (a ^ p) mod p"
    using fermat_step[OF Suc.prems, of a] by simp
  also have "\<dots> = Suc (a ^ p mod p) mod p" by (simp only: mod_Suc_eq)
  also have "\<dots> = Suc (a mod p) mod p" using Suc by simp
  also have "\<dots> = Suc a mod p" by (simp only: mod_Suc_eq)
  finally show ?case .
qed

lemma mod_mult_cancel_nat:
  fixes p a x y :: nat
  assumes "coprime p a" "(a * x) mod p = (a * y) mod p"
  shows "x mod p = y mod p"
  using assms
  by (metis (mono_tags, lifting) coprime_int_iff mult_mod_cancel_left
    of_nat_eq_iff of_nat_mult zmod_int)

lemma fermat_little_coprime:
  assumes "is_prime p" "\<not> p dvd a"
  shows "a ^ (p - 1) mod p = 1"
proof -
  have p1: "1 < p" using assms(1) by (simp add: is_prime_def)
  have "a ^ p mod p = a mod p" using assms(1) by (rule fermat_little)
  moreover have "a ^ p = a * a ^ (p - 1)" using p1 by (cases p) auto
  ultimately have "(a * a ^ (p - 1)) mod p = (a * 1) mod p" by simp
  then have "a ^ (p - 1) mod p = 1 mod p"
    using is_prime_coprime[OF assms] by (rule mod_mult_cancel_nat[rotated])
  then show ?thesis using p1 by simp
qed

lemma rsa_prime_factor:
  assumes "is_prime p"
  shows "m ^ (1 + t * (p - 1)) mod p = m mod p"
proof (cases "p dvd m")
  case True
  then have "p dvd m ^ (1 + t * (p - 1))" by simp
  with True show ?thesis by simp
next
  case False
  have p1: "1 < p" using assms by (simp add: is_prime_def)
  have "m ^ (p - 1) mod p = 1" using assms False by (rule fermat_little_coprime)
  then have "(m ^ (p - 1)) ^ t mod p = 1 ^ t mod p" by (metis power_mod)
  moreover have "m ^ (t * (p - 1)) = (m ^ (p - 1)) ^ t" by (metis power_mult mult.commute)
  ultimately have one: "m ^ (t * (p - 1)) mod p = 1" using p1 by simp
  have "m ^ (1 + t * (p - 1)) mod p = (m * m ^ (t * (p - 1))) mod p" by simp
  also have "\<dots> = (m * (m ^ (t * (p - 1)) mod p)) mod p"
    by (simp only: mod_mult_right_eq)
  also have "\<dots> = (m * 1) mod p" by (simp only: one)
  finally show ?thesis by simp
qed

lemma distinct_primes_coprime:
  assumes "is_prime p" "is_prime q" "p \<noteq> q"
  shows "coprime p q"
proof -
  have "\<not> p dvd q" using assms by (auto simp: is_prime_def)
  with assms(1) show ?thesis by (rule is_prime_coprime)
qed

lemma rsa_correct_nat:
  assumes "is_prime p" "is_prime q" "p \<noteq> q"
    and ed: "(e * d) mod ((p - 1) * (q - 1)) = 1"
  shows "m ^ (e * d) mod (p * q) = m mod (p * q)"
proof -
  define t where "t = (e * d) div ((p - 1) * (q - 1))"
  have edt: "e * d = 1 + t * ((p - 1) * (q - 1))"
    unfolding t_def using ed by (metis add.commute div_mult_mod_eq)
  have "e * d = 1 + (t * (q - 1)) * (p - 1)" using edt by (simp add: mult_ac)
  then have mp: "m ^ (e * d) mod p = m mod p"
    using rsa_prime_factor[OF assms(1), of m "t * (q - 1)"] by simp
  have "e * d = 1 + (t * (p - 1)) * (q - 1)" using edt by (simp add: mult_ac)
  then have mq: "m ^ (e * d) mod q = m mod q"
    using rsa_prime_factor[OF assms(2), of m "t * (p - 1)"] by simp
  have pos: "0 < e * d" using edt by simp
  have le: "m \<le> m ^ (e * d)"
  proof (cases "m = 0")
    case True then show ?thesis by simp
  next
    case False
    then have "m ^ 1 \<le> m ^ (e * d)" using pos by (intro power_increasing) simp_all
    then show ?thesis by simp
  qed
  from mp le have "p dvd m ^ (e * d) - m" by (simp add: mod_eq_dvd_iff_nat)
  moreover from mq le have "q dvd m ^ (e * d) - m" by (simp add: mod_eq_dvd_iff_nat)
  ultimately have "p * q dvd m ^ (e * d) - m"
    using distinct_primes_coprime[OF assms(1-3)] by (rule divides_mult)
  with le show ?thesis by (simp add: mod_eq_dvd_iff_nat)
qed

lemma prime_factor_exists: "1 < n \<Longrightarrow> \<exists>q. is_prime q \<and> q dvd n"
proof (induction n rule: less_induct)
  case (less n)
  show ?case
  proof (cases "is_prime n")
    case True
    then show ?thesis by auto
  next
    case False
    with less.prems obtain m where m: "m dvd n" "m \<noteq> 1" "m \<noteq> n"
      by (auto simp: is_prime_def)
    have n0: "0 < n" using less.prems by simp
    with m have "m \<le> n" by (auto dest: dvd_imp_le)
    with m have "m < n" by simp
    moreover have "m \<noteq> 0" using m(1) n0 by (cases "m = 0") auto
    with m have "1 < m" by simp
    ultimately obtain q where "is_prime q" "q dvd m" using less.IH by blast
    with m(1) show ?thesis by (meson dvd_trans)
  qed
qed

lemma small_prime_factor:
  assumes "1 < n" "\<not> is_prime n"
  shows "\<exists>q. is_prime q \<and> q dvd n \<and> q * q \<le> n"
proof -
  from assms obtain m where m: "m dvd n" "m \<noteq> 1" "m \<noteq> n"
    by (auto simp: is_prime_def)
  then obtain c where c: "n = m * c" by (auto elim: dvdE)
  have n0: "0 < n" using assms(1) by simp
  with c have m0: "0 < m" and c0: "0 < c" by auto
  with m c have m1: "1 < m" by simp
  have c1: "1 < c" using c m(3) c0 by (cases "c = 1") auto
  show ?thesis
  proof (cases "m \<le> c")
    case True
    from prime_factor_exists[OF m1] obtain q where q: "is_prime q" "q dvd m" by blast
    then have "q \<le> m" using m0 by (auto dest: dvd_imp_le)
    then have "q * q \<le> m * c" using True by (intro mult_mono) simp_all
    moreover have "q dvd n" using q(2) c by simp
    ultimately show ?thesis using q(1) c by auto
  next
    case False
    from prime_factor_exists[OF c1] obtain q where q: "is_prime q" "q dvd c" by blast
    then have "q \<le> c" using c0 by (auto dest: dvd_imp_le)
    then have "q * q \<le> m * c" using False by (intro mult_mono) simp_all
    moreover have "q dvd n" using q(2) c by simp
    ultimately show ?thesis using q(1) c by auto
  qed
qed

text \<open>Proth's theorem, a primality certificate that is checked by one modular power: for
  \<open>N = h * 2 ^ m + 1\<close> with \<open>h < 2 ^ m\<close>, a base \<open>a\<close> with
  \<open>a ^ ((N - 1) div 2) mod N = N - 1\<close> shows that \<open>N\<close> is prime.\<close>

lemma power_gcd_one:
  fixes b q :: nat
  assumes "1 < q"
  shows "b ^ x mod q = 1 \<Longrightarrow> b ^ y mod q = 1 \<Longrightarrow> b ^ gcd x y mod q = 1"
proof (induction x y rule: gcd_nat_induct)
  case (base x)
  then show ?case by simp
next
  case (step x y)
  have "b ^ x = b ^ (y * (x div y) + x mod y)" by simp
  also have "\<dots> = (b ^ y) ^ (x div y) * b ^ (x mod y)" by (simp only: power_add power_mult)
  finally have "b ^ x mod q = (((b ^ y mod q) ^ (x div y)) mod q * (b ^ (x mod y) mod q)) mod q"
    by (simp only: mod_mult_eq power_mod)
  then have "b ^ (x mod y) mod q = 1" using step.prems assms by simp
  from step.IH[OF step.prems(2) this] show ?case by (simp add: gcd.commute gcd_red_nat[symmetric])
qed

lemma dvd_two_power:
  fixes g :: nat
  assumes "g dvd 2 ^ m" "g \<noteq> 2 ^ m"
  shows "g dvd 2 ^ (m - 1)"
proof -
  from assms(1) obtain c where c: "2 ^ m = g * c" by (auto elim: dvdE)
  have c1: "c \<noteq> 1" using c assms(2) by auto
  have "even c"
  proof (rule ccontr)
    assume "odd c"
    then have "coprime c (2 ^ m)" by (simp add: coprime_right_2_iff_odd)
    moreover have "c dvd 2 ^ m" using c by simp
    ultimately have "c = 1" by (metis coprime_absorb_left nat_dvd_1_iff_1 coprime_iff_gcd_eq_1 gcd_nat.absorb_iff1)
    with c1 show False by simp
  qed
  then obtain c' where c': "c = 2 * c'" by (auto elim: evenE)
  have m0: "0 < m" using c c' by (cases m) auto
  then have "(2::nat) ^ m = 2 * 2 ^ (m - 1)" by (cases m) auto
  with c c' have "2 * 2 ^ (m - 1) = 2 * (g * c')" by simp
  then have "2 ^ (m - 1) = g * c'" by simp
  then show ?thesis by simp
qed

theorem proth:
  fixes N h m a :: nat
  assumes N: "N = h * 2 ^ m + 1" and m: "0 < m" and h0: "0 < h" and h: "h < 2 ^ m"
    and a: "a ^ (h * 2 ^ (m - 1)) mod N = N - 1"
  shows "is_prime N"
proof (rule ccontr)
  assume np: "\<not> is_prime N"
  have N1: "1 < N" using N h0 by simp
  from small_prime_factor[OF N1 np] obtain q
    where q: "is_prime q" "q dvd N" "q * q \<le> N" by blast
  have q1: "1 < q" using q(1) by (simp add: is_prime_def)
  define x where "x = a ^ (h * 2 ^ (m - 1))"
  define b where "b = a ^ h"
  have xb: "x = b ^ (2 ^ (m - 1))" by (simp add: x_def b_def power_mult)
  have two: "(2::nat) ^ m = 2 * 2 ^ (m - 1)" using m by (cases m) auto
  have oddN: "odd N" using N two by simp
  have oddq: "odd q" using q(2) oddN by (meson dvd_trans)
  have "(x + 1) mod N = (x mod N + 1) mod N" by (metis mod_add_left_eq)
  also have "\<dots> = 0" using a N1 by (simp add: x_def)
  finally have "N dvd x + 1" by auto
  with q(2) have qx: "q dvd x + 1" by (rule dvd_trans)
  have x0: "0 < x"
  proof (rule ccontr)
    assume "\<not> 0 < x"
    with qx have "q dvd 1" by simp
    with q1 show False by simp
  qed
  have nqx: "\<not> q dvd x"
  proof
    assume "q dvd x"
    with qx have "q dvd 1" by (metis dvd_add_right_iff)
    with q1 show False by simp
  qed
  have sq: "x * x = (x + 1) * (x - 1) + 1" using x0 by (simp add: algebra_simps)
  have x2: "b ^ (2 ^ m) mod q = 1"
  proof -
    have "(2::nat) ^ m = 2 ^ (m - 1) + 2 ^ (m - 1)" using two by simp
    then have "b ^ (2 ^ m) = b ^ (2 ^ (m - 1) + 2 ^ (m - 1))" by (simp only:)
    also have "\<dots> = x * x" by (simp only: power_add xb)
    finally have "b ^ (2 ^ m) = x * x" .
    also have "\<dots> mod q = ((x + 1) * (x - 1) + 1) mod q" by (simp only: sq)
    also have "\<dots> = 1 mod q" using qx by (metis dvd_mult2 mod_add_self1 dvd_eq_mod_eq_0 add.commute mod_add_left_eq add_0)
    finally show ?thesis using q1 by simp
  qed
  have x1: "x mod q \<noteq> 1"
  proof
    assume "x mod q = 1"
    then have e: "x mod q = 1 mod q" using q1 by simp
    have "1 \<le> x" using x0 by simp
    from mod_eq_dvd_iff_nat[OF this, of q] e have "q dvd x - 1" by blast
    moreover have "x + 1 = (x - 1) + 2" using x0 by simp
    ultimately have "q dvd 2" using qx by (metis dvd_add_right_iff)
    then have "q \<le> 2" by (auto dest: dvd_imp_le)
    with q1 have "q = 2" by simp
    with oddq show False by simp
  qed
  have nqb: "\<not> q dvd b"
  proof
    assume "q dvd b"
    then have "q dvd x" unfolding xb by (simp add: dvd_power_same[of q b] dvd_trans[OF _ dvd_power])
    with nqx show False by simp
  qed
  have fb: "b ^ (q - 1) mod q = 1" using q(1) nqb by (rule fermat_little_coprime)
  define g where "g = gcd (2 ^ m) (q - 1)"
  have bg: "b ^ g mod q = 1" unfolding g_def using q1 x2 fb by (rule power_gcd_one)
  have "g = 2 ^ m"
  proof (rule ccontr)
    assume "g \<noteq> 2 ^ m"
    moreover have "g dvd 2 ^ m" by (simp add: g_def)
    ultimately have "g dvd 2 ^ (m - 1)" by (rule dvd_two_power[rotated])
    then obtain c where c: "2 ^ (m - 1) = g * c" by (auto elim: dvdE)
    have "x = (b ^ g) ^ c" unfolding xb c by (rule power_mult)
    then have "x mod q = ((b ^ g mod q) ^ c) mod q" by (simp only: power_mod)
    also have "\<dots> = 1" using bg q1 by simp
    finally show False using x1 by simp
  qed
  then have "2 ^ m dvd q - 1" by (metis g_def gcd_dvd2)
  then have "2 ^ m \<le> q - 1" using q1 by (auto dest: dvd_imp_le)
  then have ql: "2 ^ m + 1 \<le> q" using q1 by simp
  have "N < (2 ^ m + 1) * (2 ^ m + 1)"
  proof -
    have "h * 2 ^ m < 2 ^ m * 2 ^ m" using h by simp
    moreover have "(2 ^ m + 1) * (2 ^ m + 1) = 2 ^ m * 2 ^ m + 2 * 2 ^ m + (1::nat)"
      by (simp add: algebra_simps)
    ultimately show ?thesis unfolding N by linarith
  qed
  also have "\<dots> \<le> q * q" using ql by (intro mult_mono) simp_all
  finally show False using q(3) by simp
qed

text \<open>Trial division up to the square root, for small numbers.\<close>

lemma is_prime_bounded:
  assumes n: "1 < n" and nd: "\<forall>m \<in> set [2..<b]. \<not> m dvd n" and b: "n < b * b"
  shows "is_prime n"
proof (rule ccontr)
  assume "\<not> is_prime n"
  from small_prime_factor[OF n this] obtain q where q: "is_prime q" "q dvd n" "q * q \<le> n"
    by blast
  from q(1) have q1: "1 < q" by (simp add: is_prime_def)
  have "q < b"
  proof (rule ccontr)
    assume "\<not> q < b"
    then have "b * b \<le> q * q" by (simp add: mult_le_mono)
    with q(3) b show False by simp
  qed
  with q1 have "q \<in> set [2..<b]" by simp
  with nd q(2) show False by blast
qed

section \<open>Round trip and block sizing of the block cipher codec\<close>

subsection \<open>The modular power and the byte width of the modulus\<close>

lemma pow_mod_eq: "pow_mod b ex m = b ^ ex mod m"
proof (induction b ex m rule: pow_mod.induct)
  case (1 b ex m)
  show ?case
  proof (cases "ex = 0")
    case True
    then show ?thesis by (subst pow_mod.simps) simp
  next
    case False
    have sq: "(b * b mod m) ^ (ex div 2) mod m = b ^ (2 * (ex div 2)) mod m"
      by (metis power_mod power_mult power2_eq_square)
    show ?thesis
    proof (cases "even ex")
      case True
      then have e: "2 * (ex div 2) = ex" by simp
      have "pow_mod b ex m = pow_mod (b * b mod m) (ex div 2) m"
        using False True by (subst pow_mod.simps) simp
      also have "\<dots> = (b * b mod m) ^ (ex div 2) mod m" using "1.IH"(1)[OF False True] .
      finally show ?thesis using sq e by simp
    next
      case odd: False
      then have e: "ex = Suc (2 * (ex div 2))" by (metis odd_two_times_div_two_succ Suc_eq_plus1)
      have "pow_mod b ex m = b * pow_mod (b * b mod m) (ex div 2) m mod m"
        using False odd by (subst pow_mod.simps) simp
      also have "\<dots> = b * ((b * b mod m) ^ (ex div 2) mod m) mod m"
        using "1.IH"(2)[OF False odd] by simp
      also have "\<dots> = b * (b ^ (2 * (ex div 2)) mod m) mod m" by (simp only: sq)
      also have "\<dots> = (b * b ^ (2 * (ex div 2))) mod m" by (simp only: mod_mult_right_eq)
      also have "\<dots> = b ^ Suc (2 * (ex div 2)) mod m" by simp
      finally show ?thesis using e by simp
    qed
  qed
qed

lemma bit_length_nat_bounds:
  "0 < m \<Longrightarrow> 2 ^ (bit_length_nat m - 1) \<le> m \<and> m < 2 ^ bit_length_nat m"
proof (induction m rule: bit_length_nat.induct)
  case (1 m)
  show ?case
  proof (cases "m div 2 = 0")
    case True
    with "1.prems" have "m = 1" by (cases m) (auto simp: div_eq_0_iff)
    then show ?thesis by (simp add: bit_length_nat.simps)
  next
    case False
    then have ih: "2 ^ (bit_length_nat (m div 2) - 1) \<le> m div 2 \<and> m div 2 < 2 ^ bit_length_nat (m div 2)"
      using "1.IH" "1.prems" by simp
    have bl: "bit_length_nat m = Suc (bit_length_nat (m div 2))"
      using "1.prems" by (subst bit_length_nat.simps) simp
    have pos: "0 < bit_length_nat (m div 2)"
      using False by (subst bit_length_nat.simps) simp
    then have "(2::nat) ^ bit_length_nat (m div 2) = 2 * 2 ^ (bit_length_nat (m div 2) - 1)"
      by (cases "bit_length_nat (m div 2)") auto
    with ih have "2 ^ bit_length_nat (m div 2) \<le> 2 * (m div 2)" by simp
    also have "\<dots> \<le> m" by simp
    finally have lo: "2 ^ (bit_length_nat m - 1) \<le> m" by (simp add: bl)
    from ih have "m div 2 + 1 \<le> 2 ^ bit_length_nat (m div 2)" by simp
    then have "2 * (m div 2) + 2 \<le> 2 * 2 ^ bit_length_nat (m div 2)" by simp
    moreover have "m \<le> 2 * (m div 2) + 1" by presburger
    ultimately have "m < 2 ^ bit_length_nat m" by (simp add: bl)
    with lo show ?thesis by simp
  qed
qed

lemma pow256: "(256::nat) ^ j = 2 ^ (8 * j)"
proof -
  have "(256::nat) = 2 ^ 8" by simp
  then show ?thesis by (metis power_mult)
qed

lemma mod_bytes_bounds_nat:
  fixes N :: nat
  assumes "0 < N"
  shows "256 ^ ((bit_length_nat N + 7) div 8 - 1) \<le> N \<and> N < 256 ^ ((bit_length_nat N + 7) div 8)"
proof -
  define bl where "bl = bit_length_nat N"
  define k where "k = (bl + 7) div 8"
  from bit_length_nat_bounds[OF assms]
  have b: "2 ^ (bl - 1) \<le> N" "N < 2 ^ bl" by (simp_all add: bl_def)
  have bl0: "0 < bl" using b(2) assms by (cases bl) auto
  have d1: "8 * k \<le> bl + 7" unfolding k_def by simp
  have "(bl + 7) mod 8 < 8" by simp
  moreover have "bl + 7 = 8 * k + (bl + 7) mod 8" unfolding k_def by simp
  ultimately have d2: "bl + 7 < 8 * k + 8" by linarith
  have "8 * (k - 1) \<le> bl - 1" using bl0 d1 by linarith
  then have "(2::nat) ^ (8 * (k - 1)) \<le> 2 ^ (bl - 1)" by (rule power_increasing) simp
  with b(1) have lo: "(256::nat) ^ (k - 1) \<le> N" unfolding pow256 by linarith
  have "bl \<le> 8 * k" using d2 by linarith
  then have "(2::nat) ^ bl \<le> 2 ^ (8 * k)" by (rule power_increasing) simp
  with b(2) have hi: "N < 256 ^ k" unfolding pow256 by linarith
  from lo hi show ?thesis unfolding k_def bl_def by blast
qed

lemma mod_bytes_bounds:
  assumes "0 < n"
  shows "256 ^ (mod_bytes n - 1) \<le> n \<and> n < 256 ^ mod_bytes n"
proof -
  define N where "N = nat n"
  have n: "n = int N" and N0: "0 < N" using assms by (simp_all add: N_def)
  have k: "mod_bytes n = (bit_length_nat N + 7) div 8"
    using assms by (simp add: mod_bytes_def bit_length_def N_def)
  from mod_bytes_bounds_nat[OF N0]
  have "256 ^ (mod_bytes n - 1) \<le> N" "N < 256 ^ mod_bytes n" unfolding k by blast+
  then have "int (256 ^ (mod_bytes n - 1)) \<le> int N" "int N < int (256 ^ mod_bytes n)"
    by (simp_all only: of_nat_le_iff of_nat_less_iff)
  then show ?thesis unfolding n[symmetric] by simp
qed

subsection \<open>One block\<close>

lemma to_bytes_ok: "0 \<le> x \<Longrightarrow> x < 256 ^ l \<Longrightarrow> to_bytes x (int l) = Inr (be_digits l x)"
  by (simp add: to_bytes_def)

lemma plain_block_of_ok:
  assumes "length chunk < 65536"
    and "length chunk + (if rand then 3 else 2) \<le> pbn"
  shows "\<exists>blk. plain_block_of chunk (int pbn) rand r = Inr blk \<and> length blk = pbn \<and>
           declared_len blk = int (length chunk) \<and>
           py_slice blk (if rand then 3 else 2) ((if rand then 3 else 2) + int (length chunk)) = chunk"
proof -
  define L where "L = length chunk"
  define lb where "lb = be_digits 2 (int L)"
  define hd where "hd = (if rand then lb @ [of_nat r] @ chunk else lb @ chunk)"
  define blk where "blk = hd @ replicate (pbn - length hd) 0"
  have llb: "length lb = 2" by (simp add: lb_def length_be_digits)
  have lhd: "length hd = L + (if rand then 3 else 2)" by (simp add: hd_def llb L_def)
  have le: "length hd \<le> pbn" using assms(2) lhd L_def by simp
  have tb: "to_bytes (int (length chunk)) 2 = Inr lb"
    using to_bytes_ok[of "int L" 2] assms(1) by (simp add: lb_def L_def)
  have pbo: "plain_block_of chunk (int pbn) rand r = Inr blk"
  proof (cases "length hd < pbn")
    case True
    then show ?thesis
      using tb by (simp add: plain_block_of_def Let_def hd_def[symmetric] blk_def nat_diff_distrib)
  next
    case False
    with le have "length hd = pbn" by simp
    then show ?thesis
      using tb by (simp add: plain_block_of_def Let_def hd_def[symmetric] blk_def)
  qed
  have lblk: "length blk = pbn" using le by (simp add: blk_def)
  have t2: "take 2 blk = lb" by (simp add: blk_def hd_def llb)
  have "from_bytes lb = int L"
    unfolding lb_def using assms(1) by (intro from_bytes_be_digits) (simp_all add: L_def)
  then have dl: "declared_len blk = int (length chunk)"
    using py_slice_0[of blk 2] t2 by (simp add: declared_len_def L_def)
  have sl: "py_slice blk (if rand then 3 else 2) ((if rand then 3 else 2) + int (length chunk)) = chunk"
  proof (cases rand)
    case True
    have "take L (drop 3 blk) = chunk" by (simp add: blk_def hd_def llb True L_def)
    then show ?thesis using py_slice_nat[of blk 3 L] True by (simp add: L_def)
  next
    case False
    have "take L (drop 2 blk) = chunk" by (simp add: blk_def hd_def llb False L_def)
    then show ?thesis using py_slice_nat[of blk 2 L] False by (simp add: L_def)
  qed
  from pbo lblk dl sl show ?thesis by blast
qed

lemma encrypt_block_ok:
  assumes n: "0 < pub_n pub" and e: "0 \<le> pub_e pub"
    and k: "k = mod_bytes (pub_n pub)" and pb: "8 \<le> int k - 1" and k16: "k < 65536"
    and cap: "cap = int k - 1 - (if rand then 3 else 2)"
    and len: "int (length chunk) \<le> cap"
  shows "\<exists>blk. plain_block_of chunk (int k - 1) rand r = Inr blk \<and> length blk = k - 1 \<and>
           declared_len blk = int (length chunk) \<and>
           py_slice blk (if rand then 3 else 2) ((if rand then 3 else 2) + int (length chunk)) = chunk \<and>
           0 \<le> from_bytes blk \<and> from_bytes blk < pub_n pub \<and>
           encrypt_block chunk pub mode k (int k - 1) cap rand r =
             Inr (if mode \<in> {''raw_fixed'', ''rand_fixed''}
                  then be_digits k (pow_mod (from_bytes blk) (nat (pub_e pub)) (pub_n pub))
                  else be_digits 2 (int k) @
                       be_digits k (pow_mod (from_bytes blk) (nat (pub_e pub)) (pub_n pub)))"
proof -
  have k1: "int k - 1 = int (k - 1)" using pb by simp
  have l1: "length chunk < 65536" using len cap k16 by (simp split: if_splits)
  have l2: "length chunk + (if rand then 3 else 2) \<le> k - 1"
    using len cap pb by (simp split: if_splits)
  from plain_block_of_ok[OF l1 l2, of r] obtain blk where
    blk: "plain_block_of chunk (int (k - 1)) rand r = Inr blk" "length blk = k - 1"
      "declared_len blk = int (length chunk)"
      "py_slice blk (if rand then 3 else 2) ((if rand then 3 else 2) + int (length chunk)) = chunk"
    by blast
  define m where "m = from_bytes blk"
  define c where "c = pow_mod m (nat (pub_e pub)) (pub_n pub)"
  have m0: "0 \<le> m" by (simp add: m_def from_bytes_nonneg)
  have "m < 256 ^ (k - 1)" using from_bytes_less[of blk] blk(2) by (simp add: m_def)
  also have "\<dots> \<le> pub_n pub" using mod_bytes_bounds[OF n] k by simp
  finally have mn: "m < pub_n pub" .
  have c0: "0 \<le> c" and cn: "c < pub_n pub"
    using n by (simp_all add: c_def pow_mod_eq)
  have "c < 256 ^ k" using cn mod_bytes_bounds[OF n] k by simp
  then have tc: "to_bytes c (int k) = Inr (be_digits k c)" using c0 by (rule to_bytes_ok[rotated])
  have tk: "to_bytes (int k) 2 = Inr (be_digits 2 (int k))"
    using to_bytes_ok[of "int k" 2] k16 by simp
  have re: "rsa_encrypt_int m pub = Inr c"
    using m0 mn e n by (simp add: rsa_encrypt_int_def py_pow_def c_def)
  have "encrypt_block chunk pub mode k (int k - 1) cap rand r =
          Inr (if mode \<in> {''raw_fixed'', ''rand_fixed''} then be_digits k c
               else be_digits 2 (int k) @ be_digits k c)"
    using len blk(1) re tc tk
    by (simp add: encrypt_block_def k1 m_def[symmetric] length_be_digits)
  with blk m0 mn show ?thesis unfolding k1 c_def m_def by blast
qed

lemma decrypt_block_ok:
  assumes n: "0 < priv_n priv" and d: "0 \<le> priv_d priv"
    and k: "k = mod_bytes (priv_n priv)" and pb: "8 \<le> int k - 1"
    and blk: "length blk = k - 1" "declared_len blk = int (length chunk)"
       "py_slice blk (payload_start mode) (payload_start mode + int (length chunk)) = chunk"
    and len: "int (length chunk) \<le> payload_cap mode (int k - 1)"
    and m: "0 \<le> from_bytes blk" "from_bytes blk < priv_n priv"
    and rsa: "pow_mod c (nat (priv_d priv)) (priv_n priv) = from_bytes blk"
    and c: "0 \<le> c" "c < priv_n priv"
  shows "block_plain (be_digits k c) priv (int k - 1) = Inr blk \<and>
         decrypt_block (be_digits k c) priv mode (int k - 1) = Inr chunk"
proof -
  have k1: "int k - 1 = int (k - 1)" using pb by simp
  have "c < 256 ^ k" using c(2) mod_bytes_bounds[OF n] k by simp
  then have fc: "from_bytes (be_digits k c) = c" using c(1) by (rule from_bytes_be_digits[rotated])
  have rd: "rsa_decrypt_int c priv = Inr (from_bytes blk)"
    using c d n rsa by (simp add: rsa_decrypt_int_def py_pow_def)
  have "from_bytes blk < 256 ^ (k - 1)" using from_bytes_less[of blk] blk(1) by simp
  then have "to_bytes (from_bytes blk) (int (k - 1)) = Inr (be_digits (k - 1) (from_bytes blk))"
    using m(1) by (rule to_bytes_ok[rotated])
  also have "be_digits (k - 1) (from_bytes blk) = blk"
    using be_digits_from_bytes[of blk] blk(1) by simp
  finally have bp: "block_plain (be_digits k c) priv (int k - 1) = Inr blk"
    using rd fc by (simp add: block_plain_def k1)
  have "decrypt_block (be_digits k c) priv mode (int k - 1) = Inr chunk"
    using bp blk(2,3) len by (simp add: decrypt_block_def Let_def)
  with bp show ?thesis by simp
qed

lemma rsa_image_ok:
  assumes n: "0 < pub_n pub" and e: "0 \<le> pub_e pub" and k: "k = mod_bytes (pub_n pub)"
    and m0: "0 \<le> m" and mn: "m < pub_n pub"
  shows "rsa_encrypt_int m pub = Inr (pow_mod m (nat (pub_e pub)) (pub_n pub)) \<and>
         to_bytes (pow_mod m (nat (pub_e pub)) (pub_n pub)) (int k)
           = Inr (be_digits k (pow_mod m (nat (pub_e pub)) (pub_n pub)))"
proof -
  define c where "c = pow_mod m (nat (pub_e pub)) (pub_n pub)"
  have c0: "0 \<le> c" and cn: "c < pub_n pub"
    using n by (simp_all add: c_def pow_mod_eq)
  have "c < 256 ^ k" using cn mod_bytes_bounds[OF n] k by simp
  then have tc: "to_bytes c (int k) = Inr (be_digits k c)" using c0 by (rule to_bytes_ok[rotated])
  have re: "rsa_encrypt_int m pub = Inr c"
    using m0 mn e n by (simp add: rsa_encrypt_int_def py_pow_def c_def)
  from re tc show ?thesis unfolding c_def by simp
qed


subsection \<open>Splitting the ciphertext into blocks\<close>

lemma length_concat_blocks:
  "\<forall>cb \<in> set cbs. length cb = k \<Longrightarrow> length (concat cbs) = length cbs * k"
  by (induction cbs) simp_all

lemma concat_nth_block:
  "\<forall>cb \<in> set cbs. length cb = k \<Longrightarrow> t < length cbs \<Longrightarrow>
   take k (drop (t * k) (concat cbs)) = cbs ! t"
proof (induction cbs arbitrary: t)
  case Nil
  then show ?case by simp
next
  case (Cons cb cbs)
  show ?case
  proof (cases t)
    case 0
    with Cons.prems show ?thesis by simp
  next
    case (Suc t')
    with Cons.prems have "take k (drop (t' * k) (concat cbs)) = cbs ! t'"
      by (intro Cons.IH) simp_all
    with Suc Cons.prems show ?thesis by simp
  qed
qed

lemma cipher_blocks_fixed:
  assumes "mode \<in> {''raw_fixed'', ''rand_fixed''}" "0 < k" "\<forall>cb \<in> set cbs. length cb = k"
  shows "cipher_blocks (concat cbs) k mode = Inr cbs"
proof -
  have len: "length (concat cbs) = length cbs * k" using assms(3) by (rule length_concat_blocks)
  have cnt: "(length (concat cbs) + k - 1) div k = length cbs"
  proof -
    have "((k - 1) + length cbs * k) div k = length cbs + (k - 1) div k"
      by (rule div_mult_self1) (use assms(2) in simp)
    moreover have "(k - 1) div k = 0" using assms(2) by simp
    ultimately have "(length cbs * k + (k - 1)) div k = length cbs"
      by (simp only: add.commute add_0_right)
    moreover have "length cbs * k + k - 1 = length cbs * k + (k - 1)" using assms(2) by simp
    ultimately show ?thesis by (simp only: len)
  qed
  have "map (\<lambda>t. py_slice (concat cbs) (int (t * k)) (int (t * k) + int k)) [0..<length cbs] = cbs"
  proof (rule nth_equalityI)
    show "length (map (\<lambda>t. py_slice (concat cbs) (int (t * k)) (int (t * k) + int k)) [0..<length cbs])
            = length cbs" by simp
  next
    fix t assume "t < length (map (\<lambda>t. py_slice (concat cbs) (int (t * k)) (int (t * k) + int k))
                        [0..<length cbs])"
    then have t: "t < length cbs" by simp
    then show "map (\<lambda>t. py_slice (concat cbs) (int (t * k)) (int (t * k) + int k)) [0..<length cbs] ! t
                 = cbs ! t"
      using concat_nth_block[OF assms(3) t] py_slice_nat[of "concat cbs" "t * k" k] by simp
  qed
  moreover have "length (concat cbs) mod k = 0" by (simp add: len)
  ultimately show ?thesis
    unfolding cipher_blocks_def cnt using assms(1,2) by simp
qed

lemma split_len_blocks_ok:
  assumes "k < 65536" "\<forall>cb \<in> set cbs. length cb = k"
  shows "split_len_blocks (pre @ concat (map (\<lambda>cb. be_digits 2 (int k) @ cb) cbs)) (length pre)
           = Inr cbs"
  using assms(2)
proof (induction cbs arbitrary: pre)
  case Nil
  then show ?case by (subst split_len_blocks.simps) simp
next
  case (Cons cb cbs)
  let ?h = "be_digits 2 (int k)"
  define rest where "rest = concat (map (\<lambda>cb. ?h @ cb) cbs)"
  define data where "data = pre @ ?h @ cb @ rest"
  have lcb: "length cb = k" using Cons.prems by simp
  have fh: "from_bytes ?h = int k"
    using assms(1) by (intro from_bytes_be_digits) simp_all
  have sl1: "py_slice data (int (length pre)) (int (length pre) + 2) = ?h"
    using py_slice_nat[of data "length pre" 2] by (simp add: data_def length_be_digits)
  have sl2: "py_slice data (int (length pre + 2)) (int (length pre + 2) + int k) = cb"
    using py_slice_nat[of data "length pre + 2" k] by (simp add: data_def length_be_digits lcb)
  have ld: "length data = length pre + 2 + k + length rest"
    by (simp add: data_def length_be_digits lcb)
  have "split_len_blocks ((pre @ ?h @ cb) @ concat (map (\<lambda>cb. ?h @ cb) cbs))
            (length (pre @ ?h @ cb)) = Inr cbs"
    using Cons.prems by (intro Cons.IH) simp
  then have IH: "split_len_blocks data (length pre + 2 + k) = Inr cbs"
    by (simp add: data_def rest_def length_be_digits lcb add.assoc)
  have "split_len_blocks data (length pre) = Inr (cb # cbs)"
    using ld sl1 sl2 fh IH
    by (subst split_len_blocks.simps) (simp add: Let_def)
  then show ?case by (simp add: data_def rest_def)
qed

lemma cipher_blocks_len:
  assumes "mode \<in> {''raw_len'', ''rand_len''}" "k < 65536" "\<forall>cb \<in> set cbs. length cb = k"
  shows "cipher_blocks (concat (map (\<lambda>cb. be_digits 2 (int k) @ cb) cbs)) k mode = Inr cbs"
  using assms(1) split_len_blocks_ok[OF assms(2,3), of "[]"]
  by (auto simp: cipher_blocks_def)

subsection \<open>The loop over the chunks\<close>

lemma encrypt_loop_step:
  assumes n0: "0 < pub_n pub" and e0: "0 \<le> pub_e pub"
    and k: "k = mod_bytes (pub_n pub)" and pb: "8 \<le> int k - 1" and k16: "k < 65536"
    and rand: "rand = is_rand_mode mode" and cap: "cap = payload_cap mode (int k - 1)"
    and i: "i < length data"
    and chunk: "chunk = take (nat cap) (drop i data)"
    and r: "r = randbelow rnd j 255 + 1"
  shows "\<exists>blk cb. plain_block_of chunk (int k - 1) rand r = Inr blk \<and>
           declared_len blk = int (length chunk) \<and>
           py_slice blk (payload_start mode) (payload_start mode + int (length chunk)) = chunk \<and>
           rsa_encrypt_int (from_bytes blk) pub
             = Inr (pow_mod (from_bytes blk) (nat (pub_e pub)) (pub_n pub)) \<and>
           to_bytes (pow_mod (from_bytes blk) (nat (pub_e pub)) (pub_n pub)) (int k) = Inr cb \<and>
           length cb = k \<and>
           encrypt_loop data pub mode k (int k - 1) cap rand rnd j i out =
           encrypt_loop data pub mode k (int k - 1) cap rand rnd (if rand then Suc j else j)
             (i + length chunk)
             (out @ (if mode \<in> {''raw_fixed'', ''rand_fixed''} then cb
                     else be_digits 2 (int k) @ cb))"
proof -
  have capv: "cap = int k - 1 - (if rand then 3 else 2)"
    by (simp add: cap rand payload_cap_def)
  have cap5: "5 \<le> cap" using pb capv by (simp split: if_splits)
  have ps: "payload_start mode = (if rand then 3 else 2)" by (simp add: payload_start_def rand)
  have chunk_eq: "py_slice data (int i) (int i + cap) = chunk"
    using py_slice_nat[of data i "nat cap"] cap5 by (simp add: chunk)
  have lcap: "int (length chunk) \<le> cap" using cap5 by (simp add: chunk)
  from encrypt_block_ok[of pub k cap rand chunk r mode] n0 e0 k pb k16 capv lcap
  obtain blk where blk: "plain_block_of chunk (int k - 1) rand r = Inr blk"
      "declared_len blk = int (length chunk)"
      "py_slice blk (if rand then 3 else 2) ((if rand then 3 else 2) + int (length chunk)) = chunk"
      "0 \<le> from_bytes blk" "from_bytes blk < pub_n pub"
    and enc: "encrypt_block chunk pub mode k (int k - 1) cap rand r =
           Inr (if mode \<in> {''raw_fixed'', ''rand_fixed''}
                then be_digits k (pow_mod (from_bytes blk) (nat (pub_e pub)) (pub_n pub))
                else be_digits 2 (int k) @
                     be_digits k (pow_mod (from_bytes blk) (nat (pub_e pub)) (pub_n pub)))"
    by auto
  define cb where "cb = be_digits k (pow_mod (from_bytes blk) (nat (pub_e pub)) (pub_n pub))"
  define fcb where "fcb = (if mode \<in> {''raw_fixed'', ''rand_fixed''} then cb
                     else be_digits 2 (int k) @ cb)"
  have enc': "encrypt_block chunk pub mode k (int k - 1) cap rand r = Inr fcb"
    using enc by (simp only: fcb_def cb_def)
  have img: "rsa_encrypt_int (from_bytes blk) pub
             = Inr (pow_mod (from_bytes blk) (nat (pub_e pub)) (pub_n pub))"
      "to_bytes (pow_mod (from_bytes blk) (nat (pub_e pub)) (pub_n pub)) (int k) = Inr cb"
    using rsa_image_ok[OF n0 e0 k blk(4,5)] by (simp_all only: cb_def)
  have lcb: "length cb = k" by (simp add: cb_def length_be_digits)
  have step: "encrypt_loop data pub mode k (int k - 1) cap rand rnd j i out =
           encrypt_loop data pub mode k (int k - 1) cap rand rnd (if rand then Suc j else j)
             (i + length chunk) (out @ fcb)"
    using i enc'
    by (subst encrypt_loop.simps)
       (simp add: Let_def chunk_eq r[symmetric] del: One_nat_def)
  from blk(1,2) blk(3)[folded ps] img lcb step[unfolded fcb_def] show ?thesis by blast
qed


lemma encrypt_loop_round_trip:
  assumes n0: "0 < n" and pn: "pub_n pub = n" and qn: "priv_n priv = n"
    and e0: "0 \<le> pub_e pub" and d0: "0 \<le> priv_d priv"
    and rsa: "\<And>m. 0 \<le> m \<Longrightarrow> m < n \<Longrightarrow>
                pow_mod (pow_mod m (nat (pub_e pub)) n) (nat (priv_d priv)) n = m"
    and k: "k = mod_bytes n" and pb: "8 \<le> int k - 1" and k16: "k < 65536"
    and rand: "rand = is_rand_mode mode" and cap: "cap = payload_cap mode (int k - 1)"
  shows "\<exists>cbs. encrypt_loop data pub mode k (int k - 1) cap rand rnd j i out
                 = Some (Inr (out @ concat (map (\<lambda>cb. if mode \<in> {''raw_fixed'', ''rand_fixed''}
                                                      then cb else be_digits 2 (int k) @ cb) cbs))) \<and>
               (\<forall>cb \<in> set cbs. length cb = k) \<and>
               (\<forall>acc. decrypt_blocks cbs priv mode (int k - 1) acc = Inr (acc @ drop i data))"
proof (induction "length data - i" arbitrary: i j out rule: less_induct)
  case less
  let ?frame = "\<lambda>cb. if mode \<in> {''raw_fixed'', ''rand_fixed''} then cb else be_digits 2 (int k) @ cb"
  show ?case
  proof (cases "i < length data")
    case False
    then have "encrypt_loop data pub mode k (int k - 1) cap rand rnd j i out = Some (Inr out)"
      by (subst encrypt_loop.simps) simp
    with False show ?thesis by (intro exI[of _ "[]"]) simp
  next
    case True
    have capv: "cap = int k - 1 - (if rand then 3 else 2)"
      by (simp add: cap rand payload_cap_def)
    have cap5: "5 \<le> cap" using pb capv by (simp split: if_splits)
    define chunk where "chunk = py_slice data (int i) (int i + cap)"
    have chunk_eq: "chunk = take (nat cap) (drop i data)"
      using py_slice_nat[of data i "nat cap"] cap5 by (simp add: chunk_def)
    have lchunk: "length chunk = min (nat cap) (length data - i)" by (simp add: chunk_eq)
    have lpos: "0 < length chunk" using True cap5 lchunk by simp
    have lcap: "int (length chunk) \<le> cap" using lchunk cap5 by simp
    define r where "r = randbelow rnd j 255 + 1"
    define j' where "j' = (if rand then Suc j else j)"
    from encrypt_block_ok[of pub k cap rand chunk r mode] n0 pn e0 k pb k16 capv lcap
    obtain blk where blk: "length blk = k - 1" "declared_len blk = int (length chunk)"
        "py_slice blk (if rand then 3 else 2) ((if rand then 3 else 2) + int (length chunk)) = chunk"
        "0 \<le> from_bytes blk" "from_bytes blk < n"
      and enc: "encrypt_block chunk pub mode k (int k - 1) cap rand r =
             Inr (?frame (be_digits k (pow_mod (from_bytes blk) (nat (pub_e pub)) n)))"
      by (auto simp: pn)
    define c where "c = pow_mod (from_bytes blk) (nat (pub_e pub)) n"
    define fcb where "fcb = ?frame (be_digits k c)"
    have enc': "encrypt_block chunk pub mode k (int k - 1) cap rand r = Inr fcb"
      using enc by (simp only: fcb_def c_def)
    have c0: "0 \<le> c" and cn: "c < n" using n0 by (simp_all add: c_def pow_mod_eq)
    have rs: "pow_mod c (nat (priv_d priv)) (priv_n priv) = from_bytes blk"
      unfolding c_def qn using blk(4,5) by (rule rsa)
    have ps: "payload_start mode = (if rand then 3 else 2)" by (simp add: payload_start_def rand)
    have dec: "decrypt_block (be_digits k c) priv mode (int k - 1) = Inr chunk"
      using decrypt_block_ok[of priv k blk chunk mode c] n0 qn d0 k pb blk rs c0 cn lcap
      by (simp add: ps cap)
    have "length data - (i + length chunk) < length data - i" using True lpos by linarith
    from less[OF this, of j' "out @ fcb"]
    obtain cbs where cbs:
      "encrypt_loop data pub mode k (int k - 1) cap rand rnd j' (i + length chunk) (out @ fcb)
        = Some (Inr ((out @ fcb) @ concat (map ?frame cbs)))"
      "\<forall>cb \<in> set cbs. length cb = k"
      "\<forall>acc. decrypt_blocks cbs priv mode (int k - 1) acc = Inr (acc @ drop (i + length chunk) data)"
      by blast
    define rest where "rest = concat (map ?frame cbs)"
    have rhs: "concat (map ?frame (be_digits k c # cbs)) = fcb @ rest"
      by (simp only: rest_def fcb_def list.map concat.simps)
    have "encrypt_loop data pub mode k (int k - 1) cap rand rnd j i out
        = Some (Inr (out @ fcb @ rest))"
      using True enc' cbs(1)[folded rest_def]
      by (subst encrypt_loop.simps)
         (simp add: Let_def chunk_def[symmetric] r_def[symmetric] j'_def[symmetric]
            del: One_nat_def)
    then have e1: "encrypt_loop data pub mode k (int k - 1) cap rand rnd j i out
        = Some (Inr (out @ concat (map ?frame (be_digits k c # cbs))))"
      by (simp only: rhs)
    have e2: "\<forall>cb \<in> set (be_digits k c # cbs). length cb = k"
      using cbs(2) by (simp add: length_be_digits)
    have dr: "chunk @ drop (i + length chunk) data = drop i data"
    proof -
      have "drop (i + length chunk) data = drop (length chunk) (drop i data)"
        by (simp add: add.commute)
      moreover have "length chunk \<le> nat cap" using lchunk by simp
      then have "chunk = take (length chunk) (drop i data)"
        unfolding chunk_eq by (simp add: min_def)
      ultimately show ?thesis by (metis append_take_drop_id)
    qed
    have e3: "\<forall>acc. decrypt_blocks (be_digits k c # cbs) priv mode (int k - 1) acc
                = Inr (acc @ drop i data)"
      using dec cbs(3) dr by simp
    from e1 e2 e3 show ?thesis by blast
  qed
qed

lemma rsa_pow_mod:
  fixes p q :: nat and e d m :: int
  assumes p: "is_prime p" and q: "is_prime q" and pq: "p \<noteq> q"
    and e0: "0 \<le> e" and d0: "0 \<le> d"
    and ed: "(e * d) mod ((int p - 1) * (int q - 1)) = 1"
    and m0: "0 \<le> m" and mn: "m < int (p * q)"
  shows "pow_mod (pow_mod m (nat e) (int (p * q))) (nat d) (int (p * q)) = m"
proof -
  have p1: "1 < p" and q1: "1 < q" using p q by (simp_all add: is_prime_def)
  have phi: "(int p - 1) * (int q - 1) = int ((p - 1) * (q - 1))"
    using p1 q1 by (simp add: of_nat_diff)
  have ed1: "int (nat e * nat d) = e * d" using e0 d0 by simp
  have "int (nat e * nat d) mod int ((p - 1) * (q - 1)) = int 1"
    unfolding ed1 phi[symmetric] using ed by simp
  then have "int ((nat e * nat d) mod ((p - 1) * (q - 1))) = int 1"
    by (simp only: zmod_int)
  then have ednat: "(nat e * nat d) mod ((p - 1) * (q - 1)) = 1"
    by (simp only: of_nat_eq_iff)
  have mm: "int (nat m) = m" using m0 by simp
  have lt: "nat m < p * q" using mn m0 by linarith
  have "pow_mod (pow_mod m (nat e) (int (p * q))) (nat d) (int (p * q))
        = (m ^ nat e mod int (p * q)) ^ nat d mod int (p * q)"
    by (simp only: pow_mod_eq)
  also have "\<dots> = (m ^ nat e) ^ nat d mod int (p * q)" by (rule power_mod)
  also have "\<dots> = m ^ (nat e * nat d) mod int (p * q)" by (simp only: power_mult)
  also have "\<dots> = int (nat m) ^ (nat e * nat d) mod int (p * q)" by (simp only: mm)
  also have "\<dots> = int (nat m ^ (nat e * nat d) mod (p * q))"
    by (simp only: zmod_int of_nat_power)
  also have "\<dots> = int (nat m mod (p * q))"
    by (simp only: rsa_correct_nat[OF p q pq ednat])
  also have "\<dots> = m" using lt m0 by simp
  finally show ?thesis .
qed


subsection \<open>Concrete keys\<close>

text \<open>The primes \<open>59 * 2 ^ 27 + 1\<close> and \<open>23 * 2 ^ 29 + 1\<close>, with Proth base 3; their product
  has 67 bits, so \<open>k = 9\<close> and \<open>plain_block = 8\<close>. The 32-bit modulus \<open>32771 * 32779\<close> of
  the key that \<open>generate_keypair(32, 65537)\<close> returns on \<open>two_primes_source\<close> has \<open>k = 4\<close>.\<close>

lemma pow_mod_nat: "pow_mod (int a) ex (int N) = int (a ^ ex mod N)"
  by (simp only: pow_mod_eq zmod_int of_nat_power)

lemma proth_pow_mod:
  fixes N h m a :: nat
  assumes N: "N = h * 2 ^ m + 1" and m: "0 < m" and h0: "0 < h" and h: "h < 2 ^ m"
    and a: "pow_mod (int a) (h * 2 ^ (m - 1)) (int N) = int (N - 1)"
  shows "is_prime N"
proof -
  from a have "int (a ^ (h * 2 ^ (m - 1)) mod N) = int (N - 1)"
    by (simp only: pow_mod_nat)
  then have "a ^ (h * 2 ^ (m - 1)) mod N = N - 1" by (simp only: of_nat_eq_iff)
  with N m h0 h show ?thesis by (rule proth)
qed

lemma pow_mod_p: "pow_mod 3 3959422976 7918845953 = 7918845952"
  by (simp add: pow_mod.simps)

lemma pow_mod_q: "pow_mod 3 6174015488 12348030977 = 12348030976"
  by (simp add: pow_mod.simps)

lemma is_prime_p: "is_prime 7918845953"
proof -
  have "pow_mod (int 3) (59 * 2 ^ (27 - 1)) (int 7918845953) = int (7918845953 - 1)"
    using pow_mod_p by simp
  from proth_pow_mod[OF _ _ _ _ this] show ?thesis by simp
qed

lemma is_prime_q: "is_prime 12348030977"
proof -
  have "pow_mod (int 3) (23 * 2 ^ (29 - 1)) (int 12348030977) = int (12348030977 - 1)"
    using pow_mod_q by simp
  from proth_pow_mod[OF _ _ _ _ this] show ?thesis by simp
qed

lemma mod_bytes_proth_key: "mod_bytes 97782155129735086081 = 9"
  by (simp add: mod_bytes_def bit_length_def bit_length_nat.simps)

lemma mod_bytes_small_key: "mod_bytes 1074200609 = 4"
  by (simp add: mod_bytes_def bit_length_def bit_length_nat.simps)

lemma is_prime_32771: "is_prime 32771"
  by (rule is_prime_bounded[of _ 182]) (simp_all add: upt_rec)

lemma is_prime_32779: "is_prime 32779"
  by (rule is_prime_bounded[of _ 182]) (simp_all add: upt_rec)

subsection \<open>Round trip\<close>

text \<open>The round trip for every key pair of RSA shape: modulus \<open>n = p * q\<close> for two distinct
  primes, exponents \<open>e \<ge> 0\<close>, \<open>d \<ge> 0\<close> with \<open>e * d mod ((p - 1) * (q - 1)) = 1\<close>,
  \<open>plain_block = k - 1 \<ge> 8\<close> and \<open>k \<le> 65535\<close>.\<close>

lemma rsa_key_round_trip:
  fixes p q :: nat
  assumes p: "is_prime p" and q: "is_prime q" and pq: "p \<noteq> q"
    and pn: "pub_n pub = int (p * q)" and qn: "priv_n priv = int (p * q)"
    and e0: "0 \<le> pub_e pub" and d0: "0 \<le> priv_d priv"
    and ed: "(pub_e pub * priv_d priv) mod ((int p - 1) * (int q - 1)) = 1"
    and pb: "8 \<le> int (mod_bytes (pub_n pub)) - 1"
    and k16: "mod_bytes (pub_n pub) \<le> 65535"
    and mode: "mode \<in> {''raw_fixed'', ''raw_len'', ''rand_fixed'', ''rand_len''}"
  shows "\<exists>c. encrypt_bytes data pub mode rnd = Some (Inr c) \<and>
             decrypt_bytes c priv mode = Inr data"
proof -
  define n where "n = int (p * q)"
  define k where "k = mod_bytes n"
  have p1: "1 < p" and q1: "1 < q" using p q by (simp_all add: is_prime_def)
  have n0: "0 < n" using p1 q1 by (simp add: n_def)
  have pn': "pub_n pub = n" and qn': "priv_n priv = n" using pn qn by (simp_all add: n_def)
  have rsa: "\<And>m. 0 \<le> m \<Longrightarrow> m < n \<Longrightarrow>
              pow_mod (pow_mod m (nat (pub_e pub)) n) (nat (priv_d priv)) n = m"
    unfolding n_def using p q pq e0 d0 ed by (rule rsa_pow_mod)
  have pb': "8 \<le> int k - 1" using pb by (simp add: k_def pn')
  have k16': "k < 65536" using k16 by (simp add: k_def pn')
  have k0: "0 < k" using pb' by simp
  from encrypt_loop_round_trip[where mode = mode and data = data and rnd = rnd and j = 0
        and i = 0 and out = "[]", OF n0 pn' qn' e0 d0 rsa k_def pb' k16' refl refl]
  obtain cbs where enc: "encrypt_loop data pub mode k (int k - 1) (payload_cap mode (int k - 1))
                   (is_rand_mode mode) rnd 0 0 []
                 = Some (Inr (concat (map (\<lambda>cb. if mode \<in> {''raw_fixed'', ''rand_fixed''}
                                                      then cb else be_digits 2 (int k) @ cb) cbs)))"
    and len: "\<forall>cb \<in> set cbs. length cb = k"
    and dec: "decrypt_blocks cbs priv mode (int k - 1) [] = Inr data"
    by auto
  define c where "c = concat (map (\<lambda>cb. if mode \<in> {''raw_fixed'', ''rand_fixed''}
                                                      then cb else be_digits 2 (int k) @ cb) cbs)"
  have encb: "encrypt_bytes data pub mode rnd =
      encrypt_loop data pub mode k (int k - 1) (payload_cap mode (int k - 1))
                   (is_rand_mode mode) rnd 0 0 []"
    using mode pb'
    by (auto simp: encrypt_bytes_def Let_def pn' k_def[symmetric] payload_cap_def is_rand_mode_def)
  have cb: "cipher_blocks c k mode = Inr cbs"
  proof (cases "mode \<in> {''raw_fixed'', ''rand_fixed''}")
    case True
    then have "c = concat cbs" by (simp add: c_def)
    then show ?thesis using cipher_blocks_fixed[OF True k0 len] by simp
  next
    case False
    with mode have ml: "mode \<in> {''raw_len'', ''rand_len''}" by auto
    from False have "c = concat (map (\<lambda>cb. be_digits 2 (int k) @ cb) cbs)"
      by (simp only: c_def if_False)
    then show ?thesis using cipher_blocks_len[OF ml k16' len] by simp
  qed
  have "decrypt_bytes c priv mode = Inr data"
    by (simp add: decrypt_bytes_def Let_def qn' k_def[symmetric] cb dec)
  moreover have "encrypt_bytes data pub mode rnd = Some (Inr c)"
    using encb enc by (simp only: c_def)
  ultimately show ?thesis by blast
qed

text \<open>A product of two primes has no other factorisation into two factors greater than 1, so
  when the modulus of a generated key pair is a product of two primes, these are the two numbers
  that \<open>gen_prime\<close> returned.\<close>

lemma is_prime_dvd_mult:
  assumes p: "is_prime p" and d: "p dvd a * b"
  shows "p dvd a \<or> p dvd b"
proof (cases "p dvd a")
  case True
  then show ?thesis by simp
next
  case False
  with p have "coprime p a" by (rule is_prime_coprime)
  with d have "p dvd b" by (simp add: coprime_dvd_mult_right_iff)
  then show ?thesis by simp
qed

lemma semiprime_factors_left:
  fixes a b p q :: nat
  assumes q: "is_prime q" and b: "1 < b" and pa: "p dvd a" and p0: "0 < p"
    and eq: "a * b = p * q"
  shows "a = p \<and> b = q"
proof -
  from pa obtain c where c: "a = p * c" by (auto elim: dvdE)
  with eq have "p * (c * b) = p * q" by (simp add: mult.assoc)
  with p0 have cb: "c * b = q" by simp
  have "b dvd c * b" by (rule dvd_triv_right)
  then have "b dvd q" by (simp only: cb)
  with q b have bq: "b = q" by (auto simp: is_prime_def)
  from q have "0 < q" by (simp add: is_prime_def)
  with cb bq have "c = 1" by simp
  with c bq show ?thesis by simp
qed

lemma semiprime_factors:
  fixes a b p q :: nat
  assumes p: "is_prime p" and q: "is_prime q" and a: "1 < a" and b: "1 < b"
    and eq: "a * b = p * q"
  shows "(a = p \<and> b = q) \<or> (a = q \<and> b = p)"
proof -
  from p have p0: "0 < p" by (simp add: is_prime_def)
  have "p dvd a * b" by (simp add: eq)
  with p have "p dvd a \<or> p dvd b" by (rule is_prime_dvd_mult)
  then show ?thesis
  proof
    assume "p dvd a"
    from semiprime_factors_left[OF q b this p0 eq] show ?thesis by simp
  next
    assume pb: "p dvd b"
    have "b * a = p * q" using eq by (simp add: mult.commute)
    from semiprime_factors_left[OF q a pb p0 this] show ?thesis by simp
  qed
qed

subsection \<open>Key pairs returned by the generator\<close>

text \<open>\<open>gen_prime\<close> returns its first candidate when the candidate passes the small primes and
  all 20 rounds of \<open>check\<close>.\<close>

lemma check_loop_numeral:
  "check_loop (numeral k) x n =
     (let x' = (x * x) mod n in if x' = n - 1 then True else check_loop (pred_numeral k) x' n)"
  by (simp add: numeral_eq_Suc)

lemma gen_prime_accepts:
  assumes x: "int (randbits rnd j (nat bits)) OR push_bit (nat (bits - 1)) 1 OR 1 = x"
    and bits: "16 \<le> bits" and x2: "2 \<le> x"
    and sp: "small_prime_test small_primes x = None"
    and st: "split_twos (x - 1) 0 = Some (d, s)"
    and ck: "\<And>i. Suc j \<le> i \<Longrightarrow> i < Suc j + 20 \<Longrightarrow>
               check (int (randbelow rnd i (nat (x - 3))) + 2) d s x = Inr True"
  shows "gen_prime bits rnd j = Some (Inr (x, j + 21))"
proof -
  have r: "rounds 20 x d s rnd (Suc j) = Inr (True, Suc j + 20)"
    by (rule rounds_all_pass) (rule ck)
  have "is_probable_prime x 20 rnd (Suc j) = Some (Inr (True, Suc j + 20))"
    unfolding is_probable_prime_def sp st using r x2 by simp
  then show ?thesis using bits x unfolding gen_prime_def
    by (subst gen_prime_loop.simps) (simp add: Let_def)
qed

lemma split_twos_p: "split_twos (7918845953 - 1) 0 = Some (59, 27)"
  by (simp add: split_twos.simps)

lemma split_twos_q: "split_twos (12348030977 - 1) 0 = Some (23, 29)"
  by (simp add: split_twos.simps)

lemma check_p: "check 5 59 27 7918845953 = Inr True"
  by (simp add: check_def py_pow_def pow_mod.simps check_loop_numeral Let_def)

lemma check_q: "check 5 23 29 12348030977 = Inr True"
  by (simp add: check_def py_pow_def pow_mod.simps check_loop_numeral Let_def)

lemma gen_prime_proth_first: "gen_prime 33 proth_source 0 = Some (Inr (7918845953, 21))"
proof -
  have "gen_prime 33 proth_source 0 = Some (Inr (7918845953, 0 + 21))"
  proof (rule gen_prime_accepts[where d = 59 and s = 27])
    show "int (randbits proth_source 0 (nat 33)) OR push_bit (nat (33 - 1)) 1 OR 1 = 7918845953"
      by (simp add: randbits_def proth_source_def)
    show "small_prime_test small_primes 7918845953 = None" by (simp add: small_primes_def)
    show "split_twos (7918845953 - 1) 0 = Some (59, 27)" by (rule split_twos_p)
    fix i assume "Suc 0 \<le> i" "i < Suc 0 + 20"
    then show "check (int (randbelow proth_source i (nat (7918845953 - 3))) + 2) 59 27 7918845953
                 = Inr True"
      by (simp add: randbelow_def proth_source_def check_p)
  qed simp_all
  then show ?thesis by simp
qed

lemma gen_prime_proth_second: "gen_prime 34 proth_source 21 = Some (Inr (12348030977, 42))"
proof -
  have "gen_prime 34 proth_source 21 = Some (Inr (12348030977, 21 + 21))"
  proof (rule gen_prime_accepts[where d = 23 and s = 29])
    show "int (randbits proth_source 21 (nat 34)) OR push_bit (nat (34 - 1)) 1 OR 1 = 12348030977"
      by (simp add: randbits_def proth_source_def)
    show "small_prime_test small_primes 12348030977 = None" by (simp add: small_primes_def)
    show "split_twos (12348030977 - 1) 0 = Some (23, 29)" by (rule split_twos_q)
    fix i assume "Suc 21 \<le> i" "i < Suc 21 + 20"
    then show "check (int (randbelow proth_source i (nat (12348030977 - 3))) + 2) 23 29 12348030977
                 = Inr True"
      by (simp add: randbelow_def proth_source_def check_q)
  qed simp_all
  then show ?thesis by simp
qed

lemma modinv_proth: "modinv 65537 97782155109468209152 = Inr 9799551318476390401"
  by (simp add: modinv_def egcd.simps)

lemma generate_keypair_proth:
  "generate_keypair 67 65537 proth_source 0 =
     Some (Inr ((\<lparr>pub_n = 97782155129735086081, pub_e = 65537\<rparr>,
                 \<lparr>priv_n = 97782155129735086081, priv_d = 9799551318476390401\<rparr>), 42))"
  unfolding generate_keypair_def
  by (subst generate_keypair_loop.simps)
     (simp add: gen_prime_proth_first gen_prime_proth_second modinv_proth)

text \<open>The generator on \<open>liar_source\<close>: the composite \<open>4372839077\<close> passes all 20 rounds with the
  base 22, and the key pair that is returned does not decrypt what it encrypts.\<close>

lemma split_twos_liar_p: "split_twos (4372839077 - 1) 0 = Some (1093209769, 2)"
  by (simp add: split_twos.simps)

lemma split_twos_liar_q: "split_twos (4294967357 - 1) 0 = Some (1073741839, 2)"
  by (simp add: split_twos.simps)

lemma check_liar_p: "check 22 1093209769 2 4372839077 = Inr True"
  by (simp add: check_def py_pow_def pow_mod.simps check_loop_numeral Let_def)

lemma check_liar_q: "check 22 1073741839 2 4294967357 = Inr True"
  by (simp add: check_def py_pow_def pow_mod.simps check_loop_numeral Let_def)

lemma gen_prime_liar_first: "gen_prime 33 liar_source 0 = Some (Inr (4372839077, 21))"
proof -
  have "gen_prime 33 liar_source 0 = Some (Inr (4372839077, 0 + 21))"
  proof (rule gen_prime_accepts[where d = 1093209769 and s = 2])
    show "int (randbits liar_source 0 (nat 33)) OR push_bit (nat (33 - 1)) 1 OR 1 = 4372839077"
      by (simp add: randbits_def liar_source_def)
    show "small_prime_test small_primes 4372839077 = None" by (simp add: small_primes_def)
    show "split_twos (4372839077 - 1) 0 = Some (1093209769, 2)" by (rule split_twos_liar_p)
    fix i assume "Suc 0 \<le> i" "i < Suc 0 + 20"
    then show "check (int (randbelow liar_source i (nat (4372839077 - 3))) + 2)
                 1093209769 2 4372839077 = Inr True"
      by (simp add: randbelow_def liar_source_def check_liar_p)
  qed simp_all
  then show ?thesis by simp
qed

lemma gen_prime_liar_second: "gen_prime 33 liar_source 21 = Some (Inr (4294967357, 42))"
proof -
  have "gen_prime 33 liar_source 21 = Some (Inr (4294967357, 21 + 21))"
  proof (rule gen_prime_accepts[where d = 1073741839 and s = 2])
    show "int (randbits liar_source 21 (nat 33)) OR push_bit (nat (33 - 1)) 1 OR 1 = 4294967357"
      by (simp add: randbits_def liar_source_def)
    show "small_prime_test small_primes 4294967357 = None" by (simp add: small_primes_def)
    show "split_twos (4294967357 - 1) 0 = Some (1073741839, 2)" by (rule split_twos_liar_q)
    fix i assume "Suc 21 \<le> i" "i < Suc 21 + 20"
    then show "check (int (randbelow liar_source i (nat (4294967357 - 3))) + 2)
                 1073741839 2 4294967357 = Inr True"
      by (simp add: randbelow_def liar_source_def check_liar_q)
  qed simp_all
  then show ?thesis by simp
qed

lemma modinv_liar: "modinv 65537 18781201084461203056 = Inr 16696088566486017841"
  by (simp add: modinv_def egcd.simps)

lemma generate_keypair_liar:
  "generate_keypair 66 65537 liar_source 0 =
     Some (Inr ((\<lparr>pub_n = 18781201093129009489, pub_e = 65537\<rparr>,
                 \<lparr>priv_n = 18781201093129009489, priv_d = 16696088566486017841\<rparr>), 42))"
  unfolding generate_keypair_def
  by (subst generate_keypair_loop.simps)
     (simp add: gen_prime_liar_first gen_prime_liar_second modinv_liar)

lemma mod_bytes_liar_key: "mod_bytes 18781201093129009489 = 9"
  by (simp add: mod_bytes_def bit_length_def bit_length_nat.simps)

lemma replicate_numeral_Cons: "replicate (numeral k) x = x # replicate (pred_numeral k) x"
  by (simp add: numeral_eq_Suc)

lemma encrypt_bytes_small_key:
  "encrypt_bytes data \<lparr>pub_n = 1074200609, pub_e = 65537\<rparr> mode rnd
     = Some (Inl (ValueError ''RSA modulus too small''))"
  by (simp add: encrypt_bytes_def mod_bytes_small_key)

lemma plain_block_of_liar: "plain_block_of [1] 8 False r = Inr [0, 1, 1, 0, 0, 0, 0, 0]"
  by (simp add: plain_block_of_def to_bytes_def be_digits_numeral replicate_numeral_Cons)

lemma from_bytes_liar: "from_bytes [0, 1, 1, 0, 0, 0, 0, 0] = 282574488338432"
  by (simp add: from_bytes_def)

lemma rsa_encrypt_int_liar:
  "rsa_encrypt_int 282574488338432 \<lparr>pub_n = 18781201093129009489, pub_e = 65537\<rparr>
     = Inr 10113309744602321978"
  by (simp add: rsa_encrypt_int_def py_pow_def pow_mod.simps)

lemma to_bytes_liar:
  "to_bytes 10113309744602321978 9 = Inr [0, 140, 89, 177, 161, 78, 132, 148, 58]"
  by (simp add: to_bytes_def be_digits_numeral)

lemma encrypt_block_liar:
  "encrypt_block [1] \<lparr>pub_n = 18781201093129009489, pub_e = 65537\<rparr> ''raw_fixed'' 9 8 6 False r
     = Inr [0, 140, 89, 177, 161, 78, 132, 148, 58]"
  by (simp add: encrypt_block_def plain_block_of_liar from_bytes_liar rsa_encrypt_int_liar
        to_bytes_liar)

lemma encrypt_bytes_liar:
  "encrypt_bytes [1] \<lparr>pub_n = 18781201093129009489, pub_e = 65537\<rparr> ''raw_fixed'' rnd
     = Some (Inr [0, 140, 89, 177, 161, 78, 132, 148, 58])"
proof -
  have "encrypt_loop [1] \<lparr>pub_n = 18781201093129009489, pub_e = 65537\<rparr> ''raw_fixed'' 9 8 6
          False rnd 0 0 [] = Some (Inr [0, 140, 89, 177, 161, 78, 132, 148, 58])"
    by (subst encrypt_loop.simps)
       (simp add: Let_def py_slice_def encrypt_block_liar encrypt_loop_done)
  then show ?thesis by (simp add: encrypt_bytes_def mod_bytes_liar_key)
qed

lemma from_bytes_liar_cipher:
  "from_bytes [0, 140, 89, 177, 161, 78, 132, 148, 58] = 10113309744602321978"
  by (simp add: from_bytes_def)

lemma rsa_decrypt_int_liar:
  "rsa_decrypt_int 10113309744602321978
     \<lparr>priv_n = 18781201093129009489, priv_d = 16696088566486017841\<rparr> = Inr 971472120945564620"
  by (simp add: rsa_decrypt_int_def py_pow_def pow_mod.simps)

lemma block_plain_liar:
  "block_plain [0, 140, 89, 177, 161, 78, 132, 148, 58]
     \<lparr>priv_n = 18781201093129009489, priv_d = 16696088566486017841\<rparr> 8
     = Inr [13, 123, 92, 191, 54, 39, 219, 204]"
  by (simp add: block_plain_def from_bytes_liar_cipher rsa_decrypt_int_liar to_bytes_def
        be_digits_numeral)

lemma decrypt_bytes_liar:
  "decrypt_bytes [0, 140, 89, 177, 161, 78, 132, 148, 58]
     \<lparr>priv_n = 18781201093129009489, priv_d = 16696088566486017841\<rparr> ''raw_fixed''
     = Inl (ValueError ''bad plaintext length'')"
proof -
  let ?priv = "\<lparr>priv_n = 18781201093129009489, priv_d = 16696088566486017841\<rparr>"
  let ?c = "[0, 140, 89, 177, 161, 78, 132, 148, 58] :: bytes"
  have c: "cipher_blocks ?c 9 ''raw_fixed'' = Inr [?c]"
    by (simp add: cipher_blocks_def py_slice_def upt_conv_Cons)
  have l: "payload_cap ''raw_fixed'' 8 < declared_len [13, 123, 92, 191, 54, 39, 219, 204]"
    by (simp add: payload_cap_def is_rand_mode_def declared_len_def py_slice_def from_bytes_def)
  have "decrypt_block ?c ?priv ''raw_fixed'' 8 = Inl (ValueError ''bad plaintext length'')"
    by (rule decrypt_block_bad_length[OF block_plain_liar]) (use l in simp)
  then show ?thesis by (simp add: decrypt_bytes_def mod_bytes_liar_key c)
qed

subsection \<open>Round trip for generated key pairs\<close>

text \<open>
  C1, as the code has it. For every key pair \<open>(pub, priv)\<close> returned by
  \<open>generate_keypair(bits, e)\<close> with \<open>e \<ge> 0\<close> whose modulus is a product of two primes (the two
  numbers drawn by \<open>gen_prime\<close> are prime, not only probable primes), with
  \<open>plain_block = k - 1 \<ge> 8\<close> and \<open>k \<le> 65535\<close>, for every byte string \<open>data\<close> (the empty one
  included), every one of the four modes and every random source of the encoder,
  \<open>encrypt_bytes\<close> returns a ciphertext and \<open>decrypt_bytes\<close> maps it back to \<open>data\<close>.
\<close>

theorem encrypt_decrypt_round_trip:
  fixes p q :: nat
  assumes gk: "generate_keypair bits e rnd0 j = Some (Inr ((pub, priv), j'))"
    and n: "pub_n pub = int (p * q)" and p: "is_prime p" and q: "is_prime q"
    and e0: "0 \<le> e"
    and pb: "8 \<le> int (mod_bytes (pub_n pub)) - 1"
    and k16: "mod_bytes (pub_n pub) \<le> 65535"
    and mode: "mode \<in> {''raw_fixed'', ''raw_len'', ''rand_fixed'', ''rand_len''}"
  shows "\<exists>c. encrypt_bytes data pub mode rnd = Some (Inr c) \<and>
             decrypt_bytes c priv mode = Inr data"
proof -
  from generate_keypair_loop_ok[OF gk[unfolded generate_keypair_def]]
  obtain p' q' j0 j1 where
      gp: "gen_prime (bits div 2) rnd0 j0 = Some (Inr (p', j1))"
    and gq: "gen_prime (bits - bits div 2) rnd0 j1 = Some (Inr (q', j'))"
    and n': "pub_n pub = p' * q'" and ne: "p' \<noteq> q'"
    and ed: "(e * priv_d priv) mod ((p' - 1) * (q' - 1)) = 1"
    and d0: "0 \<le> priv_d priv"
    and pn: "pub_n pub = priv_n priv" and pe: "pub_e pub = e"
    by auto
  have p2: "2 \<le> p'" using gp by (rule gen_prime_ge2)
  have q2: "2 \<le> q'" using gq by (rule gen_prime_ge2)
  have "int (nat p' * nat q') = int (p * q)" using p2 q2 n n' by simp
  then have eq: "nat p' * nat q' = p * q" by (simp only: of_nat_eq_iff)
  have "1 < nat p'" "1 < nat q'" using p2 q2 by simp_all
  from semiprime_factors[OF p q this eq]
  have cases: "(p' = int p \<and> q' = int q) \<or> (p' = int q \<and> q' = int p)"
    using p2 q2 by auto
  then have pq: "p \<noteq> q" using ne by auto
  from cases have phi: "(p' - 1) * (q' - 1) = (int p - 1) * (int q - 1)"
    by (auto simp: mult.commute)
  have ed': "(pub_e pub * priv_d priv) mod ((int p - 1) * (int q - 1)) = 1"
    using ed by (simp only: pe phi)
  have qn: "priv_n priv = int (p * q)" using pn n by simp
  have e0': "0 \<le> pub_e pub" using e0 pe by simp
  from rsa_key_round_trip[OF p q pq n qn e0' d0 ed' pb k16 mode]
  show ?thesis .
qed

theorem encrypt_decrypt_round_trip_witness:
  "generate_keypair 67 65537 proth_source 0 =
     Some (Inr ((\<lparr>pub_n = 97782155129735086081, pub_e = 65537\<rparr>,
                 \<lparr>priv_n = 97782155129735086081, priv_d = 9799551318476390401\<rparr>), 42)) \<and>
   (\<exists>c. encrypt_bytes [1, 2, 3, 4, 5, 6, 7] \<lparr>pub_n = 97782155129735086081, pub_e = 65537\<rparr>
          ''rand_len'' id = Some (Inr c) \<and>
        decrypt_bytes c \<lparr>priv_n = 97782155129735086081, priv_d = 9799551318476390401\<rparr>
          ''rand_len'' = Inr [1, 2, 3, 4, 5, 6, 7])"
  using encrypt_decrypt_round_trip[of 67 65537 proth_source 0
          "\<lparr>pub_n = 97782155129735086081, pub_e = 65537\<rparr>"
          "\<lparr>priv_n = 97782155129735086081, priv_d = 9799551318476390401\<rparr>" 42
          7918845953 12348030977 "''rand_len''" "[1, 2, 3, 4, 5, 6, 7]" id]
        generate_keypair_proth is_prime_p is_prime_q
  by (simp add: mod_bytes_proth_key)

text \<open>
  The claim C1 as stated (every key pair produced by \<open>generate_keypair\<close>) fails in two ways.
  On the random source \<open>two_primes_source\<close>, \<open>generate_keypair(32, 65537)\<close> returns the key pair
  with modulus \<open>32771 * 32779\<close>, a product of two distinct primes with
  \<open>e * d mod ((p - 1) * (q - 1)) = 1\<close>; its byte width is \<open>k = 4\<close>, so \<open>plain_block = 3 < 8\<close> and
  \<open>encrypt_bytes\<close> raises ValueError instead of returning a ciphertext. On the random source
  \<open>liar_source\<close>, \<open>generate_keypair(66, 65537)\<close> returns a key pair with \<open>plain_block = 8\<close> whose
  first factor \<open>4372839077 = 53993 * 80989\<close> is composite although
  \<open>e * d mod ((p - 1) * (q - 1)) = 1\<close>; the one-byte input \<open>[1]\<close> is encrypted in mode
  \<open>raw_fixed\<close> to nine bytes on which \<open>decrypt_bytes\<close> raises ValueError.
\<close>

theorem generated_key_round_trip_fails:
  "generate_keypair 32 65537 two_primes_source 0 =
     Some (Inr ((\<lparr>pub_n = 1074200609, pub_e = 65537\<rparr>,
                 \<lparr>priv_n = 1074200609, priv_d = 489955193\<rparr>), 42)) \<and>
   is_prime 32771 \<and> is_prime 32779 \<and>
   (1074200609 :: int) = 32771 * 32779 \<and>
   (65537 * 489955193) mod ((32771 - 1) * (32779 - 1)) = (1 :: int) \<and>
   encrypt_bytes [1, 2, 3] \<lparr>pub_n = 1074200609, pub_e = 65537\<rparr> ''raw_fixed'' id
     = Some (Inl (ValueError ''RSA modulus too small'')) \<and>
   generate_keypair 66 65537 liar_source 0 =
     Some (Inr ((\<lparr>pub_n = 18781201093129009489, pub_e = 65537\<rparr>,
                 \<lparr>priv_n = 18781201093129009489, priv_d = 16696088566486017841\<rparr>), 42)) \<and>
   (18781201093129009489 :: int) = 4372839077 * 4294967357 \<and>
   (4372839077 :: int) = 53993 * 80989 \<and>
   (65537 * 16696088566486017841) mod ((4372839077 - 1) * (4294967357 - 1)) = (1 :: int) \<and>
   int (mod_bytes 18781201093129009489) - 1 = 8 \<and>
   encrypt_bytes [1] \<lparr>pub_n = 18781201093129009489, pub_e = 65537\<rparr> ''raw_fixed'' id
     = Some (Inr [0, 140, 89, 177, 161, 78, 132, 148, 58]) \<and>
   decrypt_bytes [0, 140, 89, 177, 161, 78, 132, 148, 58]
     \<lparr>priv_n = 18781201093129009489, priv_d = 16696088566486017841\<rparr> ''raw_fixed''
     = Inl (ValueError ''bad plaintext length'')"
  by (simp add: generate_keypair_small encrypt_bytes_small_key
        is_prime_32771 is_prime_32779 generate_keypair_liar mod_bytes_liar_key
        encrypt_bytes_liar decrypt_bytes_liar)

subsection \<open>Block sizing\<close>

text \<open>
  C5, as the code has it. For every public key with \<open>n > 0\<close>, \<open>e \<ge> 0\<close>,
  \<open>plain_block = k - 1 \<ge> 8\<close> and \<open>k \<le> 65535\<close>, every one of the four modes and every random
  source: \<open>encrypt_bytes\<close> of a buffer of exactly \<open>payload_cap\<close> bytes returns a ciphertext that
  splits into exactly one cipher block of \<open>k\<close> bytes, and a buffer of \<open>payload_cap + 1\<close> bytes
  gives exactly two cipher blocks of \<open>k\<close> bytes, the second being the RSA image of a plaintext
  block whose length field is 1 and whose payload is the last byte of the buffer.
\<close>

theorem encrypt_bytes_block_sizing:
  assumes n0: "0 < pub_n pub" and e0: "0 \<le> pub_e pub"
    and k: "k = mod_bytes (pub_n pub)" and pb: "8 \<le> int k - 1" and k16: "k \<le> 65535"
    and mode: "mode \<in> {''raw_fixed'', ''raw_len'', ''rand_fixed'', ''rand_len''}"
    and cap: "cap = nat (payload_cap mode (int k - 1))"
  shows "(length data = cap \<longrightarrow>
           (\<exists>c cb. encrypt_bytes data pub mode rnd = Some (Inr c) \<and>
                   cipher_blocks c k mode = Inr [cb] \<and> length cb = k)) \<and>
         (length data = cap + 1 \<longrightarrow>
           (\<exists>c cb1 cb2 blk c2 r.
                   encrypt_bytes data pub mode rnd = Some (Inr c) \<and>
                   cipher_blocks c k mode = Inr [cb1, cb2] \<and> length cb1 = k \<and> length cb2 = k \<and>
                   plain_block_of (drop cap data) (int k - 1) (is_rand_mode mode) r = Inr blk \<and>
                   declared_len blk = 1 \<and>
                   py_slice blk (payload_start mode) (payload_start mode + 1) = [last data] \<and>
                   rsa_encrypt_int (from_bytes blk) pub = Inr c2 \<and>
                   to_bytes c2 (int k) = Inr cb2))"
proof -
  define rand where "rand = is_rand_mode mode"
  define icap where "icap = payload_cap mode (int k - 1)"
  let ?frame = "\<lambda>cb. if mode \<in> {''raw_fixed'', ''rand_fixed''} then cb else be_digits 2 (int k) @ cb"
  have k16': "k < 65536" using k16 by simp
  have k0: "0 < k" using pb by simp
  have capv: "icap = int k - 1 - (if rand then 3 else 2)"
    by (simp add: icap_def rand_def payload_cap_def)
  have cap5: "5 \<le> icap" using pb capv by (simp split: if_splits)
  have capn: "cap = nat icap" by (simp add: cap icap_def)
  have cap0: "0 < cap" using cap5 capn by simp
  have encb: "encrypt_bytes data pub mode rnd =
      encrypt_loop data pub mode k (int k - 1) icap rand rnd 0 0 []"
    using mode pb
    by (auto simp: encrypt_bytes_def Let_def k[symmetric] icap_def rand_def payload_cap_def
          is_rand_mode_def)
  have split: "cipher_blocks (concat (map ?frame cbs)) k mode = Inr cbs"
    if len: "\<forall>cb \<in> set cbs. length cb = k" for cbs
  proof (cases "mode \<in> {''raw_fixed'', ''rand_fixed''}")
    case True
    then have "concat (map ?frame cbs) = concat cbs" by simp
    then show ?thesis using cipher_blocks_fixed[OF True k0 len] by simp
  next
    case False
    with mode have ml: "mode \<in> {''raw_len'', ''rand_len''}" by auto
    from False have "concat (map ?frame cbs) = concat (map (\<lambda>cb. be_digits 2 (int k) @ cb) cbs)"
      by (simp only: if_False)
    then show ?thesis using cipher_blocks_len[OF ml k16' len] by simp
  qed
  show ?thesis
  proof (intro conjI impI)
    assume l: "length data = cap"
    have i: "0 < length data" using l cap0 by simp
    have ch: "data = take (nat icap) (drop 0 data)" using l capn by simp
    from encrypt_loop_step[OF n0 e0 k pb k16' rand_def icap_def i ch refl, of rnd 0 "[]"]
    obtain cb where cb: "length cb = k"
      and st: "encrypt_loop data pub mode k (int k - 1) icap rand rnd 0 0 [] =
           encrypt_loop data pub mode k (int k - 1) icap rand rnd (if rand then Suc 0 else 0)
             (0 + length data) ([] @ ?frame cb)"
      by blast
    have "encrypt_bytes data pub mode rnd = Some (Inr (?frame cb))"
      unfolding encb st by (simp add: encrypt_loop_done)
    moreover have "cipher_blocks (?frame cb) k mode = Inr [cb]"
      using split[of "[cb]"] cb by simp
    ultimately show "\<exists>c cb. encrypt_bytes data pub mode rnd = Some (Inr c) \<and>
                   cipher_blocks c k mode = Inr [cb] \<and> length cb = k"
      using cb by blast
  next
    assume l: "length data = cap + 1"
    define ch1 where "ch1 = take (nat icap) (drop 0 data)"
    define ch2 where "ch2 = take (nat icap) (drop cap data)"
    have l1: "length ch1 = cap" using l capn by (simp add: ch1_def)
    have ch2d: "ch2 = drop cap data" using l capn cap0 by (simp add: ch2_def)
    have l2: "length ch2 = 1" using l by (simp add: ch2d)
    have dne: "data \<noteq> []" using l by auto
    have ch2l: "ch2 = [last data]"
    proof -
      have "drop cap data = drop (length data - 1) data" using l by simp
      also have "\<dots> = [last data]" using dne
        by (metis append_butlast_last_id append_eq_conv_conj length_butlast)
      finally show ?thesis by (simp add: ch2d)
    qed
    have i0: "0 < length data" using l by simp
    have i1: "cap < length data" using l by simp
    define j1 where "j1 = (if rand then Suc 0 else 0)"
    from encrypt_loop_step[OF n0 e0 k pb k16' rand_def icap_def i0 ch1_def refl, of rnd 0 "[]"]
    obtain cb1 where cb1: "length cb1 = k"
      and st1: "encrypt_loop data pub mode k (int k - 1) icap rand rnd 0 0 [] =
           encrypt_loop data pub mode k (int k - 1) icap rand rnd j1
             cap (?frame cb1)"
      unfolding l1 j1_def by auto
    from encrypt_loop_step[OF n0 e0 k pb k16' rand_def icap_def i1 ch2_def refl,
           of rnd j1 "?frame cb1"]
    obtain blk cb2 where blk: "plain_block_of ch2 (int k - 1) rand (randbelow rnd j1 255 + 1) = Inr blk"
        "declared_len blk = 1"
        "py_slice blk (payload_start mode) (payload_start mode + 1) = ch2"
        "rsa_encrypt_int (from_bytes blk) pub
             = Inr (pow_mod (from_bytes blk) (nat (pub_e pub)) (pub_n pub))"
        "to_bytes (pow_mod (from_bytes blk) (nat (pub_e pub)) (pub_n pub)) (int k) = Inr cb2"
      and cb2: "length cb2 = k"
      and st2: "encrypt_loop data pub mode k (int k - 1) icap rand rnd j1 cap (?frame cb1) =
           encrypt_loop data pub mode k (int k - 1) icap rand rnd (if rand then Suc j1 else j1)
             (cap + 1) (?frame cb1 @ ?frame cb2)"
      unfolding l2 by auto
    have "encrypt_bytes data pub mode rnd = Some (Inr (?frame cb1 @ ?frame cb2))"
      unfolding encb st1 st2 using l by (simp add: encrypt_loop_done)
    moreover have "cipher_blocks (?frame cb1 @ ?frame cb2) k mode = Inr [cb1, cb2]"
      using split[of "[cb1, cb2]"] cb1 cb2 by simp
    ultimately show "\<exists>c cb1 cb2 blk c2 r.
                   encrypt_bytes data pub mode rnd = Some (Inr c) \<and>
                   cipher_blocks c k mode = Inr [cb1, cb2] \<and> length cb1 = k \<and> length cb2 = k \<and>
                   plain_block_of (drop cap data) (int k - 1) (is_rand_mode mode) r = Inr blk \<and>
                   declared_len blk = 1 \<and>
                   py_slice blk (payload_start mode) (payload_start mode + 1) = [last data] \<and>
                   rsa_encrypt_int (from_bytes blk) pub = Inr c2 \<and>
                   to_bytes c2 (int k) = Inr cb2"
      using cb1 cb2 blk unfolding ch2l[symmetric] ch2d[symmetric] rand_def[symmetric] by blast
  qed
qed

theorem encrypt_bytes_block_sizing_witness:
  "(\<exists>c cb. encrypt_bytes [1, 2, 3, 4, 5, 6] \<lparr>pub_n = 18446744400127067027, pub_e = 65537\<rparr>
              ''raw_fixed'' id = Some (Inr c) \<and>
           cipher_blocks c 9 ''raw_fixed'' = Inr [cb] \<and> length cb = 9) \<and>
   (\<exists>c cb1 cb2 blk c2 r.
       encrypt_bytes [1, 2, 3, 4, 5, 6] \<lparr>pub_n = 18446744400127067027, pub_e = 65537\<rparr>
              ''rand_len'' id = Some (Inr c) \<and>
       cipher_blocks c 9 ''rand_len'' = Inr [cb1, cb2] \<and> length cb1 = 9 \<and> length cb2 = 9 \<and>
       plain_block_of [6] 8 True r = Inr blk \<and> declared_len blk = 1 \<and>
       py_slice blk 3 4 = [6] \<and>
       rsa_encrypt_int (from_bytes blk) \<lparr>pub_n = 18446744400127067027, pub_e = 65537\<rparr> = Inr c2 \<and>
       to_bytes c2 9 = Inr cb2)"
  using encrypt_bytes_block_sizing[of "\<lparr>pub_n = 18446744400127067027, pub_e = 65537\<rparr>" 9
          "''raw_fixed''" 6 "[1, 2, 3, 4, 5, 6]" id]
        encrypt_bytes_block_sizing[of "\<lparr>pub_n = 18446744400127067027, pub_e = 65537\<rparr>" 9
          "''rand_len''" 5 "[1, 2, 3, 4, 5, 6]" id]
  by (simp add: mod_bytes_key payload_cap_def is_rand_mode_def payload_start_def)

text \<open>
  The claim C5 as stated (every public key) fails: for the modulus \<open>32771 * 32779\<close>
  (\<open>k = 4\<close>, \<open>plain_block = 3\<close>, \<open>payload_cap = 1\<close> in the raw modes) a buffer of one byte gives
  no cipher block, \<open>encrypt_bytes\<close> raises ValueError.
\<close>

theorem encrypt_bytes_block_sizing_small_modulus:
  "mod_bytes (pub_n \<lparr>pub_n = 1074200609, pub_e = 65537\<rparr>) = 4 \<and>
   payload_cap ''raw_fixed'' (int 4 - 1) = 1 \<and>
   encrypt_bytes [7] \<lparr>pub_n = 1074200609, pub_e = 65537\<rparr> ''raw_fixed'' id
     = Some (Inl (ValueError ''RSA modulus too small''))"
  by (simp add: encrypt_bytes_def mod_bytes_small_key payload_cap_def is_rand_mode_def)

end
